theory Spec2Isabelle
  imports Complex_Main "HOL-Library.AList"
begin

section \<open>Python values, turns and transcripts\<close>

text \<open>
  A turn is a Python dict from string keys (\<open>role\<close>, \<open>content\<close>, \<open>uuid\<close>, \<open>ts\<close>,
  \<open>reply_to\<close>, \<open>model\<close>) to values that are a string or \<open>None\<close>. A key that is absent
  and a key that is present with the value \<open>None\<close> are distinguished, as
  \<open>"uuid" not in msg\<close> and \<open>msg.get("uuid")\<close> distinguish them. A Python \<open>str\<close> is a HOL
  string, one \<open>char\<close> per character.
\<close>

datatype pyval = PyNone | PyStr string

type_synonym msg = "string \<rightharpoonup> pyval"

text \<open>\<open>msg.get(k)\<close>: the value, or \<open>None\<close> when the key is absent.\<close>

definition dict_get :: "msg \<Rightarrow> string \<Rightarrow> pyval" where
  "dict_get m k = (case m k of None \<Rightarrow> PyNone | Some v \<Rightarrow> v)"

text \<open>Python truthiness of a string-or-None value: \<open>None\<close> and \<open>""\<close> are falsy.\<close>

fun truthy :: "pyval \<Rightarrow> bool" where
  "truthy PyNone = False"
| "truthy (PyStr s) = (s \<noteq> [])"

datatype error = KeyError | IndexError | OverflowError

text \<open>Slices \<open>xs[i:]\<close> and \<open>xs[:j]\<close> for any Python integer, negative ones counting from the end.\<close>

definition slice_from :: "int \<Rightarrow> 'a list \<Rightarrow> 'a list" where
  "slice_from i xs = (if i < 0 then drop (nat (int (length xs) + i)) xs else drop (nat i) xs)"

definition slice_to :: "int \<Rightarrow> 'a list \<Rightarrow> 'a list" where
  "slice_to j xs = (if j < 0 then take (nat (int (length xs) + j)) xs else take (nat j) xs)"

text \<open>
  A Python string is kept as the list of the bytes of its UTF-8 encoding (so is
  \<open>summary_prefix\<close> below). \<open>chars s\<close> are its characters, each the lead byte with the
  continuation bytes \<open>10xxxxxx\<close> that follow it, so that a slice counts characters:
  \<open>str_slice_to n s\<close> is \<open>s[:n]\<close>. \<open>whitespace\<close> lists the characters that \<open>str.isspace\<close>
  accepts (U+0009 to U+000D, U+001C to U+0020, U+0085, U+00A0, U+1680, U+2000 to U+200A,
  U+2028, U+2029, U+202F, U+205F, U+3000), which \<open>str.strip()\<close> removes from both ends.
  \<open>str.lower\<close> needs the case tables of Unicode, which are not reproduced: each definition
  that calls it takes the function as its argument \<open>lower\<close>; \<open>ascii_lower\<close> is
  \<open>str.lower\<close> on ASCII strings. \<open>py_join sep xs\<close> is \<open>sep.join(xs)\<close>.
\<close>

definition is_cont :: "char \<Rightarrow> bool" where
  "is_cont c \<longleftrightarrow> (of_char c :: nat) div 64 = 2"

function chars :: "string \<Rightarrow> string list" where
  "chars [] = []"
| "chars (c # cs) = (c # takeWhile is_cont cs) # chars (dropWhile is_cont cs)"
  by pat_completeness auto
termination
  by (relation "measure length") (auto simp: length_dropWhile_le less_Suc_eq_le)

definition str_slice_to :: "int \<Rightarrow> string \<Rightarrow> string" where
  "str_slice_to j s = concat (slice_to j (chars s))"

definition whitespace :: "string list" where
  "whitespace =
     [[CHR 0x09], [CHR 0x0A], [CHR 0x0B], [CHR 0x0C], [CHR 0x0D],
      [CHR 0x1C], [CHR 0x1D], [CHR 0x1E], [CHR 0x1F], [CHR 0x20],
      [CHR 0xC2, CHR 0x85], [CHR 0xC2, CHR 0xA0], [CHR 0xE1, CHR 0x9A, CHR 0x80],
      [CHR 0xE2, CHR 0x80, CHR 0x80], [CHR 0xE2, CHR 0x80, CHR 0x81], [CHR 0xE2, CHR 0x80, CHR 0x82],
      [CHR 0xE2, CHR 0x80, CHR 0x83], [CHR 0xE2, CHR 0x80, CHR 0x84], [CHR 0xE2, CHR 0x80, CHR 0x85],
      [CHR 0xE2, CHR 0x80, CHR 0x86], [CHR 0xE2, CHR 0x80, CHR 0x87], [CHR 0xE2, CHR 0x80, CHR 0x88],
      [CHR 0xE2, CHR 0x80, CHR 0x89], [CHR 0xE2, CHR 0x80, CHR 0x8A], [CHR 0xE2, CHR 0x80, CHR 0xA8],
      [CHR 0xE2, CHR 0x80, CHR 0xA9], [CHR 0xE2, CHR 0x80, CHR 0xAF], [CHR 0xE2, CHR 0x81, CHR 0x9F],
      [CHR 0xE3, CHR 0x80, CHR 0x80]]"

definition py_strip :: "string \<Rightarrow> string" where
  "py_strip s =
     concat (rev (dropWhile (\<lambda>c. c \<in> set whitespace)
                    (rev (dropWhile (\<lambda>c. c \<in> set whitespace) (chars s)))))"

definition ascii_lower :: "string \<Rightarrow> string" where
  "ascii_lower s =
     map (\<lambda>c. case map_of (zip ''ABCDEFGHIJKLMNOPQRSTUVWXYZ'' ''abcdefghijklmnopqrstuvwxyz'') c of
                None \<Rightarrow> c
              | Some l \<Rightarrow> l) s"

fun py_join :: "string \<Rightarrow> string list \<Rightarrow> string" where
  "py_join sep [] = []"
| "py_join sep [x] = x"
| "py_join sep (x # y # ys) = x @ sep @ py_join sep (y # ys)"

section \<open>The store (database.py)\<close>

text \<open>
  A row of table \<open>chat_history\<close>, in \<open>seq\<close> order within its chat. The columns \<open>role\<close>,
  \<open>content\<close> and \<open>ts\<close> are read as strings; \<open>msg_uuid\<close> is kept as a Python value, since
  \<open>load_chat_history\<close> copies whatever the row holds. Every store write may raise: the
  list \<open>faults\<close> holds the outcomes of the coming writes (\<open>True\<close>: this write raises), and
  writes after the list is used up succeed. \<open>commits\<close> is the log of the transactions on
  \<open>chat_history\<close> that committed, the newest last; nothing reads it, it records which
  writes succeeded.
\<close>

record row =
  msg_uuid :: pyval
  role :: string
  content :: string
  ts :: string

record database =
  chat_history :: "string \<Rightarrow> row list"
  user_model_prefs :: "int \<rightharpoonup> string"
  faults :: "bool list"
  commits :: "(string \<times> row list) list"

definition msg_of_row :: "row \<Rightarrow> msg" where
  "msg_of_row r = [''uuid'' \<mapsto> msg_uuid r, ''role'' \<mapsto> PyStr (role r),
                   ''content'' \<mapsto> PyStr (content r), ''ts'' \<mapsto> PyStr (ts r)]"

definition load_chat_history :: "database \<Rightarrow> string \<Rightarrow> msg list" where
  "load_chat_history d chat_id = map msg_of_row (chat_history d chat_id)"

text \<open>
  The row that \<open>save_chat_history\<close> inserts for one turn:
  \<open>(msg.get("uuid"), msg["role"], msg["content"], msg.get("ts", now))\<close>. There is none
  (the insert raises, and the transaction is rolled back) when \<open>role\<close> or \<open>content\<close> is
  absent, or a column declared \<open>NOT NULL\<close> would be \<open>None\<close>.
\<close>

definition row_of :: "string \<Rightarrow> msg \<Rightarrow> row option" where
  "row_of now m =
     (case (dict_get m ''uuid'', m ''role'', m ''content'',
            (case m ''ts'' of None \<Rightarrow> PyStr now | Some t \<Rightarrow> t)) of
        (PyStr u, Some (PyStr r), Some (PyStr c), PyStr t) \<Rightarrow>
           Some \<lparr>msg_uuid = PyStr u, role = r, content = c, ts = t\<rparr>
      | _ \<Rightarrow> None)"

fun rows_of :: "string \<Rightarrow> msg list \<Rightarrow> row list option" where
  "rows_of now [] = Some []"
| "rows_of now (m # ms) =
     (case row_of now m of
        None \<Rightarrow> None
      | Some r \<Rightarrow> (case rows_of now ms of None \<Rightarrow> None | Some rs \<Rightarrow> Some (r # rs)))"

text \<open>
  \<open>save_chat_history\<close>: delete the chat's rows and insert the turns in order, as one
  transaction. The result is \<open>True\<close> when the write committed and \<open>False\<close> when it
  raised (then the rows are as before).
\<close>

definition save_chat_history :: "database \<Rightarrow> string \<Rightarrow> msg list \<Rightarrow> string \<Rightarrow> bool \<times> database" where
  "save_chat_history d chat_id ctx now =
     (let d' = d\<lparr>faults := tl (faults d)\<rparr> in
      if faults d \<noteq> [] \<and> hd (faults d) then (False, d')
      else (case rows_of now ctx of
              None \<Rightarrow> (False, d')
            | Some rs \<Rightarrow>
                (True, d'\<lparr>chat_history := (chat_history d')(chat_id := rs),
                          commits := commits d' @ [(chat_id, rs)]\<rparr>)))"

text \<open>
  \<open>user_id\<close> is a Python integer, and one that does not fit the 64-bit \<open>INTEGER\<close> of
  SQLite makes the statement raise \<open>OverflowError\<close> when it is bound. \<open>get_user_model\<close>
  lets that exception through; on a store in working order the read raises nothing else.
  \<open>set_user_model\<close> catches every exception of its statement and answers \<open>False\<close>.
\<close>

definition get_user_model :: "database \<Rightarrow> int \<Rightarrow> error + string option" where
  "get_user_model d user_id =
     (if user_id < - (2 ^ 63) \<or> 2 ^ 63 \<le> user_id then Inl OverflowError
      else Inr (case user_model_prefs d user_id of
                  None \<Rightarrow> None
                | Some model_name \<Rightarrow> if model_name \<noteq> [] then Some (py_strip model_name) else None))"

definition set_user_model :: "database \<Rightarrow> int \<Rightarrow> string \<Rightarrow> bool \<times> database" where
  "set_user_model d user_id model_name =
     (if user_id < - (2 ^ 63) \<or> 2 ^ 63 \<le> user_id then (False, d)
      else
        let d' = d\<lparr>faults := tl (faults d)\<rparr> in
        if faults d \<noteq> [] \<and> hd (faults d) then (False, d')
        else if py_strip model_name = []
          then (True, d'\<lparr>user_model_prefs := (user_model_prefs d')(user_id := None)\<rparr>)
          else (True, d'\<lparr>user_model_prefs := (user_model_prefs d')(user_id \<mapsto> py_strip model_name)\<rparr>))"

section \<open>The conversation cache (utils.py, ContextCacheManager)\<close>

text \<open>
  A transcript is a Python list object, so the model has a heap: \<open>heap st a\<close> is the
  content of the list object at address \<open>a\<close> (the list together with the dicts it holds),
  \<open>copy.deepcopy\<close> allocates a new object with the same content, and a caller who mutates a
  list it holds changes the heap at that address. The cache is a Python dict, kept as an
  association list in insertion order (\<open>sorted\<close> is stable on it). \<open>clock\<close> is what
  \<open>time.time()\<close> returns and \<open>now_str\<close> what \<open>datetime.now().strftime(...)\<close> returns;
  \<open>uuid_src\<close> is the sequence of values \<open>str(uuid.uuid4())\<close> returns, of which \<open>uuid_used\<close>
  are used up.
\<close>

type_synonym addr = nat

record entry =
  data :: addr
  dirty_count :: int
  summary_cooldown :: int
  last_access :: real

record state =
  heap :: "addr \<Rightarrow> msg list"
  next_addr :: addr
  cache :: "(string \<times> entry) list"
  db :: database
  clock :: real
  now_str :: string
  uuid_src :: "nat \<Rightarrow> string"
  uuid_used :: nat

definition SAVE_THRESHOLD :: int where "SAVE_THRESHOLD = 3"
definition CACHE_TTL :: real where "CACHE_TTL = 1800"
definition AUTO_SAVE_INTERVAL :: real where "AUTO_SAVE_INTERVAL = 10800"
definition MAX_CACHE_ENTRIES :: nat where "MAX_CACHE_ENTRIES = 1000"

definition alloc :: "state \<Rightarrow> msg list \<Rightarrow> addr \<times> state" where
  "alloc st v = (next_addr st, st\<lparr>heap := (heap st)(next_addr st := v), next_addr := Suc (next_addr st)\<rparr>)"

definition deepcopy :: "state \<Rightarrow> addr \<Rightarrow> addr \<times> state" where
  "deepcopy st a = alloc st (heap st a)"

text \<open>\<open>copy.deepcopy\<close> of a cache entry: the counters and a copy of its transcript.\<close>

definition deepcopy_entry :: "state \<Rightarrow> entry \<Rightarrow> entry \<times> state" where
  "deepcopy_entry st e = (let (a, st1) = deepcopy st (data e) in (e\<lparr>data := a\<rparr>, st1))"

definition uuid4 :: "state \<Rightarrow> string \<times> state" where
  "uuid4 st = (uuid_src st (uuid_used st), st\<lparr>uuid_used := Suc (uuid_used st)\<rparr>)"

fun ensure_uuid :: "state \<Rightarrow> msg list \<Rightarrow> msg list \<times> state" where
  "ensure_uuid st [] = ([], st)"
| "ensure_uuid st (m # ms) =
     (if m ''uuid'' = None then
        (case uuid4 st of (u, st1) \<Rightarrow>
           (case ensure_uuid st1 ms of (ms', st2) \<Rightarrow> ((m(''uuid'' \<mapsto> PyStr u)) # ms', st2)))
      else (case ensure_uuid st ms of (ms', st2) \<Rightarrow> (m # ms', st2)))"

text \<open>
  The eviction loop shared by the capacity and the idle eviction: for each item, snapshot
  the entry, queue it for write-back, delete it from the cache.
\<close>

fun evict_loop :: "state \<Rightarrow> (string \<times> entry) list \<Rightarrow> (string \<times> entry) list \<times> state" where
  "evict_loop st [] = ([], st)"
| "evict_loop st ((cid, e) # rest) =
     (case deepcopy_entry st e of (entry_snapshot, st1) \<Rightarrow>
        (case evict_loop (st1\<lparr>cache := AList.delete cid (cache st1)\<rparr>) rest of
           (pending, st2) \<Rightarrow> ((cid, entry_snapshot) # pending, st2)))"

definition check_cache_limit_unsafe :: "state \<Rightarrow> (string \<times> entry) list \<times> state" where
  "check_cache_limit_unsafe st =
     (if length (cache st) \<le> MAX_CACHE_ENTRIES then ([], st)
      else
        let entries_to_remove = int (length (cache st)) - \<lfloor>real MAX_CACHE_ENTRIES * 0.8\<rfloor> in
        if entries_to_remove \<le> 0 then ([], st)
        else
          let sorted_entries = sort_key (\<lambda>x. last_access (snd x)) (cache st) in
          evict_loop st (take (min (nat entries_to_remove) (length sorted_entries)) sorted_entries))"

text \<open>The body of the loop of \<open>_flush_evictions\<close>, for one evicted entry.\<close>

definition flush_eviction :: "state \<Rightarrow> string \<times> entry \<Rightarrow> state" where
  "flush_eviction st p =
     (case p of (cid, e) \<Rightarrow>
        if dirty_count e \<le> 0 then st
        else
          (case save_chat_history (db st) cid (heap st (data e)) (now_str st) of
             (ok, d) \<Rightarrow>
               if ok then st\<lparr>db := d\<rparr>
               else if map_of (cache st) cid = None then
                 st\<lparr>db := d, cache := AList.update cid (e\<lparr>last_access := clock st\<rparr>) (cache st)\<rparr>
               else st\<lparr>db := d\<rparr>))"

fun flush_evictions :: "state \<Rightarrow> (string \<times> entry) list \<Rightarrow> state" where
  "flush_evictions st [] = st"
| "flush_evictions st (p # rest) = flush_evictions (flush_eviction st p) rest"

definition flush_to_db :: "state \<Rightarrow> string \<Rightarrow> state" where
  "flush_to_db st cid =
     (case map_of (cache st) cid of
        None \<Rightarrow> st
      | Some e \<Rightarrow>
          (case deepcopy st (data e) of (data_to_save, st1) \<Rightarrow>
             let dirty_snapshot = dirty_count e in
             (case save_chat_history (db st1) cid (heap st1 data_to_save) (now_str st1) of
                (ok, d) \<Rightarrow>
                  let st2 = st1\<lparr>db := d\<rparr> in
                  if \<not> ok then st2
                  else
                    (case map_of (cache st2) cid of
                       None \<Rightarrow> st2
                     | Some e' \<Rightarrow>
                         if dirty_count e' = dirty_snapshot
                         then st2\<lparr>cache := AList.update cid (e'\<lparr>dirty_count := 0\<rparr>) (cache st2)\<rparr>
                         else st2))))"

definition get_context :: "state \<Rightarrow> string \<Rightarrow> (error + addr) \<times> state" where
  "get_context st cid =
     (let current_time = clock st in
      case
        (case map_of (cache st) cid of
           None \<Rightarrow>
             (case ensure_uuid st (load_chat_history (db st) cid) of (loaded, s1) \<Rightarrow>
                (case alloc s1 loaded of (a, s2) \<Rightarrow>
                   check_cache_limit_unsafe
                     (s2\<lparr>cache := AList.update cid
                          \<lparr>data = a, dirty_count = 0, summary_cooldown = 0, last_access = current_time\<rparr>
                          (cache s2)\<rparr>)))
         | Some e0 \<Rightarrow>
             ([], st\<lparr>cache := AList.update cid (e0\<lparr>last_access := current_time\<rparr>) (cache st)\<rparr>))
      of (pending_evictions, st1) \<Rightarrow>
        (case map_of (cache st1) cid of
           None \<Rightarrow> (Inl KeyError, st1)
         | Some e \<Rightarrow>
             (case deepcopy st1 (data e) of (result, st2) \<Rightarrow>
                (Inr result,
                 if pending_evictions \<noteq> [] then flush_evictions st2 pending_evictions else st2))))"

definition update_context :: "state \<Rightarrow> string \<Rightarrow> addr \<Rightarrow> bool \<Rightarrow> (error + unit) \<times> state" where
  "update_context st cid new_context force_save =
     (case
        (if map_of (cache st) cid = None then
           (case alloc st [] of (a, s1) \<Rightarrow>
              check_cache_limit_unsafe
                (s1\<lparr>cache := AList.update cid
                     \<lparr>data = a, dirty_count = 0, summary_cooldown = 0, last_access = clock s1\<rparr>
                     (cache s1)\<rparr>))
         else ([], st))
      of (pending_evictions, st1) \<Rightarrow>
        (case map_of (cache st1) cid of
           None \<Rightarrow> (Inl KeyError, st1)
         | Some e \<Rightarrow>
             (case deepcopy st1 new_context of (a, st2) \<Rightarrow>
                let e' = e\<lparr>data := a, dirty_count := dirty_count e + 1, last_access := clock st2\<rparr>;
                    st3 = st2\<lparr>cache := AList.update cid e' (cache st2)\<rparr>;
                    should_save = (force_save \<or> dirty_count e' \<ge> SAVE_THRESHOLD);
                    st4 = (if pending_evictions \<noteq> [] then flush_evictions st3 pending_evictions else st3);
                    st5 = (if should_save then flush_to_db st4 cid else st4)
                in (Inr (), st5))))"

definition get_cooldown :: "state \<Rightarrow> string \<Rightarrow> int" where
  "get_cooldown st cid = (case map_of (cache st) cid of None \<Rightarrow> 0 | Some e \<Rightarrow> summary_cooldown e)"

definition set_cooldown :: "state \<Rightarrow> string \<Rightarrow> int \<Rightarrow> state" where
  "set_cooldown st cid val =
     (case map_of (cache st) cid of
        None \<Rightarrow> st
      | Some e \<Rightarrow> st\<lparr>cache := AList.update cid (e\<lparr>summary_cooldown := val\<rparr>) (cache st)\<rparr>)"

definition flush_all :: "state \<Rightarrow> state" where
  "flush_all st =
     (let cids = map fst (filter (\<lambda>(cid, e). dirty_count e > 0) (cache st)) in
      fold (\<lambda>cid s. flush_to_db s cid) cids st)"

definition evict_inactive_entries :: "state \<Rightarrow> real \<Rightarrow> (string \<times> entry) list \<times> state" where
  "evict_inactive_entries st current_time =
     evict_loop st (filter (\<lambda>(cid, e). current_time - last_access e > CACHE_TTL) (cache st))"

text \<open>
  One round of \<open>_maintenance_worker\<close> after its wait, when shutdown is not set; the
  argument and the result carry the loop's variable \<open>last_auto_save\<close>.
\<close>

definition maintenance_cycle :: "state \<Rightarrow> real \<Rightarrow> real \<times> state" where
  "maintenance_cycle st last_auto_save =
     (let current_time = clock st;
          (last_auto_save', st1) =
             (if current_time - last_auto_save > AUTO_SAVE_INTERVAL
              then (current_time, flush_all st) else (last_auto_save, st))
      in case evict_inactive_entries st1 current_time of
           (pending_evictions, st2) \<Rightarrow>
             (last_auto_save',
              if pending_evictions \<noteq> [] then flush_evictions st2 pending_evictions else st2))"

definition remove_last_message :: "state \<Rightarrow> string \<Rightarrow> state" where
  "remove_last_message st cid =
     (case map_of (cache st) cid of
        None \<Rightarrow> st
      | Some e \<Rightarrow>
          if heap st (data e) \<noteq> [] then
            st\<lparr>heap := (heap st)(data e := butlast (heap st (data e))),
               cache := AList.update cid (e\<lparr>dirty_count := dirty_count e + 1\<rparr>) (cache st)\<rparr>
          else st)"

section \<open>The lifecycle policy and the transcript rewrites (services.py)\<close>

text \<open>The attributes of \<open>Config\<close> that the policy reads, and their values in config.py.\<close>

record config =
  LIMIT_HISTORY_GROUP :: int
  SUMMARY_TRIGGER_PRIVATE :: int
  SUMMARY_RETAIN_PRIVATE :: int
  MAX_SAFETY_LIMIT :: int

definition Config :: config where
  "Config = \<lparr>LIMIT_HISTORY_GROUP = 20, SUMMARY_TRIGGER_PRIVATE = 35,
              SUMMARY_RETAIN_PRIVATE = 15, MAX_SAFETY_LIMIT = 40\<rparr>"

text \<open>
  \<open>check_and_prepare_task\<close> returns the pair \<open>(task_msgs, forced_context)\<close>, each a list or
  \<open>None\<close>: \<open>(None, None)\<close> is the plain append, \<open>(None, xs)\<close> the truncation to \<open>xs\<close>,
  \<open>(xs, None)\<close> the condensation candidate \<open>xs\<close>. The transcript is read only, so it is
  passed by content.
\<close>

definition check_and_prepare_task ::
  "state \<Rightarrow> config \<Rightarrow> string \<Rightarrow> string \<Rightarrow> msg list \<Rightarrow> (msg list option \<times> msg list option) \<times> state" where
  "check_and_prepare_task st cfg chat_id_str chat_type ctx =
     (let cooldown = get_cooldown st chat_id_str in
      if cooldown > 0 then
        (let st1 = set_cooldown st chat_id_str (cooldown - 1) in
         if int (length ctx) > MAX_SAFETY_LIMIT cfg
         then ((None, Some (slice_from (- SUMMARY_TRIGGER_PRIVATE cfg) ctx)), st1)
         else ((None, None), st1))
      else if int (length ctx) > MAX_SAFETY_LIMIT cfg
        then ((None, Some (slice_from (- SUMMARY_TRIGGER_PRIVATE cfg) ctx)), st)
      else if chat_type \<noteq> ''private'' then
        (if int (length ctx) > LIMIT_HISTORY_GROUP cfg
         then ((None, Some (slice_from (- LIMIT_HISTORY_GROUP cfg) ctx)), st)
         else ((None, None), st))
      else if int (length ctx) \<le> SUMMARY_TRIGGER_PRIVATE cfg then ((None, None), st)
      else
        (let split_index = int (length ctx) - SUMMARY_RETAIN_PRIVATE cfg in
         if split_index \<le> 0 then ((None, None), st)
         else ((Some (slice_to split_index ctx), None), st)))"

text \<open>
  The literal that starts the content of a summary turn (in the source a bracketed
  Chinese label followed by a full-width colon), given by its UTF-8 bytes.
\<close>

definition summary_prefix :: string where
  "summary_prefix =
     [CHR 0xE3, CHR 0x80, CHR 0x90, CHR 0xE9, CHR 0x95, CHR 0xBF, CHR 0xE6, CHR 0x9C, CHR 0x9F,
      CHR 0xE8, CHR 0xAE, CHR 0xB0, CHR 0xE5, CHR 0xBF, CHR 0x86, CHR ''/'', CHR 0xE5, CHR 0x89,
      CHR 0x8D, CHR 0xE6, CHR 0x83, CHR 0x85, CHR 0xE6, CHR 0x8F, CHR 0x90, CHR 0xE8, CHR 0xA6,
      CHR 0x81, CHR 0xE3, CHR 0x80, CHR 0x91, CHR 0xEF, CHR 0xBC, CHR 0x9A]"

definition summary_node :: "string \<Rightarrow> string \<Rightarrow> string \<Rightarrow> msg" where
  "summary_node summary_text new_uuid now =
     [''role'' \<mapsto> PyStr ''system'', ''content'' \<mapsto> PyStr (summary_prefix @ summary_text),
      ''uuid'' \<mapsto> PyStr new_uuid, ''ts'' \<mapsto> PyStr now]"

definition apply_summary_success ::
  "state \<Rightarrow> string \<Rightarrow> msg list \<Rightarrow> pyval \<Rightarrow> (error + unit) \<times> state" where
  "apply_summary_success st chat_id_str msgs_to_summarize summary_text =
     (case summary_text of
        PyNone \<Rightarrow> (Inr (), st)
      | PyStr txt \<Rightarrow>
          if txt = [] then (Inr (), st)
          else
            (case get_context st chat_id_str of
               (Inl err, st1) \<Rightarrow> (Inl err, st1)
             | (Inr r, st1) \<Rightarrow>
                 let current_context = heap st1 r;
                     msg_count = length msgs_to_summarize in
                 if current_context = [] then (Inr (), st1)
                 else if length current_context < msg_count then (Inr (), st1)
                 else if msgs_to_summarize = [] then (Inl IndexError, st1)
                 else
                   let start_uuid = dict_get (hd msgs_to_summarize) ''uuid'';
                       end_uuid = dict_get (last msgs_to_summarize) ''uuid'';
                       current_start_uuid = dict_get (hd current_context) ''uuid'';
                       current_end_uuid = dict_get (current_context ! (msg_count - 1)) ''uuid''
                   in
                   if truthy start_uuid \<and> truthy end_uuid \<and> start_uuid = current_start_uuid
                      \<and> end_uuid = current_end_uuid
                   then
                     (case uuid4 st1 of (u, st2) \<Rightarrow>
                        let remaining_context = drop msg_count current_context;
                            new_context = [summary_node txt u (now_str st2)] @ remaining_context
                        in (case alloc st2 new_context of (a, st3) \<Rightarrow>
                              update_context st3 chat_id_str a True))
                   else (Inr (), st1)))"

text \<open>The first loop of \<open>_insert_ai_reply\<close>: is there a turn that already answers the user turn?\<close>

definition has_reply_to :: "pyval \<Rightarrow> msg list \<Rightarrow> bool" where
  "has_reply_to user_msg_uuid ctx = (\<exists>existing \<in> set ctx. dict_get existing ''reply_to'' = user_msg_uuid)"

text \<open>The second loop: \<open>i + 1\<close> for the first \<open>i\<close> whose turn has the id, counting from \<open>i\<close>.\<close>

fun find_insert_index :: "pyval \<Rightarrow> msg list \<Rightarrow> nat \<Rightarrow> nat option" where
  "find_insert_index user_msg_uuid [] i = None"
| "find_insert_index user_msg_uuid (m # ms) i =
     (if dict_get m ''uuid'' = user_msg_uuid then Some (i + 1)
      else find_insert_index user_msg_uuid ms (i + 1))"

text \<open>\<open>xs.insert(i, x)\<close> for \<open>0 \<le> i\<close>.\<close>

definition list_insert :: "nat \<Rightarrow> 'a \<Rightarrow> 'a list \<Rightarrow> 'a list" where
  "list_insert i x xs = take i xs @ [x] @ drop i xs"

definition insert_ai_reply :: "state \<Rightarrow> string \<Rightarrow> pyval \<Rightarrow> msg \<Rightarrow> (error + unit) \<times> state" where
  "insert_ai_reply st chat_id_str user_msg_uuid ai_msg_obj =
     (case get_context st chat_id_str of
        (Inl err, st1) \<Rightarrow> (Inl err, st1)
      | (Inr r, st1) \<Rightarrow>
          let ctx = heap st1 r in
          if truthy user_msg_uuid \<and> has_reply_to user_msg_uuid ctx then (Inr (), st1)
          else
            let insert_index = (if truthy user_msg_uuid then find_insert_index user_msg_uuid ctx 0 else None);
                ctx' = (case insert_index of
                          None \<Rightarrow> ctx @ [ai_msg_obj]
                        | Some i \<Rightarrow> if i > length ctx then ctx @ [ai_msg_obj] else list_insert i ai_msg_obj ctx)
            in update_context (st1\<lparr>heap := (heap st1)(r := ctx')\<rparr>) chat_id_str r False)"

section \<open>The lock registry (utils.py, ChatLockManager)\<close>

text \<open>
  \<open>get_lock\<close> keys the registry by \<open>str(chat_id)\<close>, so a chat id is a string here. A lock
  object is known by its identity: \<open>threading.RLock()\<close> makes a new object, numbered by
  \<open>next_lock\<close>. The registry maps a chat id to the pair of its lock and the time of its last
  use. \<open>auto_cleanup\<close> is one round of \<open>_auto_cleanup\<close> after its wait; \<open>held l\<close> says that
  another thread holds lock \<open>l\<close> then, so that the non-blocking acquire fails.
\<close>

record lock_manager =
  locks :: "string \<rightharpoonup> nat \<times> real"
  next_lock :: nat
  ttl :: real

definition new_lock_manager :: "real \<Rightarrow> lock_manager" where
  "new_lock_manager ttl_seconds = \<lparr>locks = Map.empty, next_lock = 0, ttl = ttl_seconds\<rparr>"

definition get_lock :: "lock_manager \<Rightarrow> string \<Rightarrow> real \<Rightarrow> nat \<times> lock_manager" where
  "get_lock lm chat_id_str now =
     (case locks lm chat_id_str of
        None \<Rightarrow>
          (next_lock lm,
           lm\<lparr>locks := (locks lm)(chat_id_str \<mapsto> (next_lock lm, now)), next_lock := Suc (next_lock lm)\<rparr>)
      | Some (l, t) \<Rightarrow> (l, lm\<lparr>locks := (locks lm)(chat_id_str \<mapsto> (l, now))\<rparr>))"

definition auto_cleanup :: "lock_manager \<Rightarrow> real \<Rightarrow> (nat \<Rightarrow> bool) \<Rightarrow> lock_manager" where
  "auto_cleanup lm current_time held =
     lm\<lparr>locks := (\<lambda>cid. case locks lm cid of
                            None \<Rightarrow> None
                          | Some (l, last_time) \<Rightarrow>
                              if current_time - last_time > ttl lm \<and> \<not> held l then None
                              else Some (l, last_time))\<rparr>"

text \<open>
  The registries that arise: the new one, and any reached by calls of \<open>get_lock\<close> and rounds
  of the sweep. \<open>get_locks\<close> is a series of \<open>get_lock\<close> calls whose results are dropped.
\<close>

inductive reachable_locks :: "lock_manager \<Rightarrow> bool" where
  init: "reachable_locks (new_lock_manager ttl_seconds)"
| acquire: "reachable_locks lm \<Longrightarrow> reachable_locks (snd (get_lock lm c now))"
| sweep: "reachable_locks lm \<Longrightarrow> reachable_locks (auto_cleanup lm now held)"

fun get_locks :: "lock_manager \<Rightarrow> (string \<times> real) list \<Rightarrow> lock_manager" where
  "get_locks lm [] = lm"
| "get_locks lm ((c, now) # calls) = get_locks (snd (get_lock lm c now)) calls"

section \<open>The provider chain (utils.py ProviderManager, handlers.py core_reply_cycle)\<close>

text \<open>
  What a backend call can do: raise, with the text \<open>str(e)\<close> of the exception, or return.
  \<open>AIService.get_chat_response\<close> returns a stripped string; \<open>core_reply_cycle\<close> also
  accepts a pair (reply, usage) and a dict, so the three shapes are kept. A service is its
  \<open>config.DEFAULT_TEMP\<close> and its response to a payload and a temperature.
\<close>

type_synonym usage_dict = "string \<rightharpoonup> int"

datatype chat_result =
    ResStr string
  | ResTuple pyval "usage_dict option"
  | ResDict msg "usage_dict option"

datatype outcome = Raises string | Returns chat_result

record service =
  DEFAULT_TEMP :: real
  get_chat_response :: "msg list \<Rightarrow> real \<Rightarrow> outcome"

text \<open>
  \<open>ProviderManager\<close>: \<open>_init_providers\<close> walks \<open>AI_PROVIDERS\<close>; an entry is its name and the
  service built for it, \<open>None\<close> when building it raised. \<open>__init__\<close> exits when nothing was
  loaded, else it builds \<open>_name_map\<close> from the lower-cased names.
\<close>

record provider_manager =
  services :: "string \<rightharpoonup> service"
  provider_list :: "string list"
  name_map :: "string \<rightharpoonup> string"

fun init_providers :: "(string \<times> service option) list \<Rightarrow> provider_manager \<Rightarrow> provider_manager" where
  "init_providers [] pm = pm"
| "init_providers ((name, loaded) # rest) pm =
     (case loaded of
        None \<Rightarrow> init_providers rest pm
      | Some svc \<Rightarrow>
          init_providers rest
            (pm\<lparr>services := (services pm)(name \<mapsto> svc), provider_list := provider_list pm @ [name]\<rparr>))"

definition new_provider_manager ::
  "(string \<Rightarrow> string) \<Rightarrow> (string \<times> service option) list \<Rightarrow> provider_manager option" where
  "new_provider_manager lower AI_PROVIDERS =
     (let pm = init_providers AI_PROVIDERS \<lparr>services = Map.empty, provider_list = [], name_map = Map.empty\<rparr>
      in if provider_list pm = [] then None
         else Some (pm\<lparr>name_map := fold (\<lambda>name m. m(lower name \<mapsto> name)) (provider_list pm) Map.empty\<rparr>))"

text \<open>
  The stored preference when it names a loaded service, else the loaded name that it matches
  without case (the corrected name is written back, the outcome of the write ignored), else
  \<open>provider_list[0]\<close>. An exception of the read of the preference goes through.
\<close>

definition get_user_provider_name ::
  "(string \<Rightarrow> string) \<Rightarrow> provider_manager \<Rightarrow> database \<Rightarrow> int \<Rightarrow> (error + string) \<times> database" where
  "get_user_provider_name lower pm d user_id =
     (let first_provider =
            (case provider_list pm of [] \<Rightarrow> (Inl IndexError, d) | p # ps \<Rightarrow> (Inr p, d))
      in case get_user_model d user_id of
           Inl err \<Rightarrow> (Inl err, d)
         | Inr None \<Rightarrow> first_provider
         | Inr (Some pref) \<Rightarrow>
             if pref = [] then first_provider
             else if services pm pref \<noteq> None then (Inr pref, d)
             else
               (case name_map pm (lower (py_strip pref)) of
                  None \<Rightarrow> first_provider
                | Some mapped \<Rightarrow>
                    if services pm mapped \<noteq> None
                    then (Inr mapped, snd (set_user_model d user_id mapped))
                    else first_provider))"

text \<open>
  The generator \<open>get_service_chain\<close>, as the list of the pairs it yields: the preferred
  service, then each service of \<open>provider_list\<close> under another name.
\<close>

definition get_service_chain ::
  "(string \<Rightarrow> string) \<Rightarrow> provider_manager \<Rightarrow> database \<Rightarrow> int
     \<Rightarrow> (error + (string \<times> service) list) \<times> database" where
  "get_service_chain lower pm d user_id =
     (case get_user_provider_name lower pm d user_id of
        (Inl err, d') \<Rightarrow> (Inl err, d')
      | (Inr preferred, d') \<Rightarrow>
          (Inr ((case services pm preferred of None \<Rightarrow> [] | Some svc \<Rightarrow> [(preferred, svc)])
                @ concat (map (\<lambda>name. if name \<noteq> preferred
                                        then (case services pm name of None \<Rightarrow> [] | Some svc \<Rightarrow> [(name, svc)])
                                        else [])
                              (provider_list pm))),
           d'))"

text \<open>
  The local variables of \<open>core_reply_cycle\<close> that the failover loop writes, and \<open>invoked\<close>,
  the names of the services called so far (nothing reads it). \<open>take_result\<close> is the
  assignment to \<open>ai_reply\<close> and \<open>usage\<close> from the result of a call, \<open>py_or\<close> is \<open>a or b\<close>.
\<close>

definition py_or :: "pyval \<Rightarrow> pyval \<Rightarrow> pyval" where
  "py_or a b = (if truthy a then a else b)"

record reply_state =
  ai_reply :: pyval
  success_provider :: "string option"
  usage :: "usage_dict option"
  error_log :: "string list"
  invoked :: "string list"

definition take_result :: "chat_result \<Rightarrow> reply_state \<Rightarrow> reply_state" where
  "take_result result rs =
     (case result of
        ResTuple r u \<Rightarrow> rs\<lparr>ai_reply := r, usage := u\<rparr>
      | ResDict dct u \<Rightarrow>
          rs\<lparr>ai_reply := py_or (py_or (dict_get dct ''content'') (dict_get dct ''reply''))
                                (dict_get dct ''text''),
             usage := u\<rparr>
      | ResStr s \<Rightarrow> rs\<lparr>ai_reply := PyStr s\<rparr>)"

text \<open>
  The \<open>for\<close> loop over the chain: a call that raises adds a line to \<open>error_log\<close> and the
  loop goes on; a call that returns sets \<open>ai_reply\<close>, and a truthy \<open>ai_reply\<close> ends the loop.
\<close>

fun failover_loop :: "(string \<times> service) list \<Rightarrow> msg list \<Rightarrow> reply_state \<Rightarrow> reply_state" where
  "failover_loop [] messages_payload rs = rs"
| "failover_loop ((p_name, svc) # rest) messages_payload rs =
     (let rs0 = rs\<lparr>invoked := invoked rs @ [p_name]\<rparr> in
      case get_chat_response svc messages_payload (DEFAULT_TEMP svc) of
        Raises err_msg \<Rightarrow>
          failover_loop rest messages_payload
            (rs0\<lparr>error_log := error_log rs0 @ [p_name @ '': '' @ str_slice_to 50 err_msg @ ''...'']\<rparr>)
      | Returns result \<Rightarrow>
          let rs1 = take_result result rs0 in
          if truthy (ai_reply rs1) then rs1\<lparr>success_provider := Some p_name\<rparr>
          else failover_loop rest messages_payload rs1)"

text \<open>The bytes of the text before the joined log in the exception raised when no reply was got.\<close>

definition all_failed_prefix :: string where
  "all_failed_prefix =
     [CHR 0xE6, CHR 0x89, CHR 0x80, CHR 0xE6, CHR 0x9C, CHR 0x89, CHR 0xE7, CHR 0xBA, CHR 0xBF,
      CHR 0xE8, CHR 0xB7, CHR 0xAF, CHR 0xE5, CHR 0x9D, CHR 0x87, CHR 0xE5, CHR 0xA4, CHR 0xB1,
      CHR 0xE8, CHR 0xB4, CHR 0xA5, CHR '':'', CHR '' '']"

text \<open>
  \<open>core_reply_cycle\<close> from the request for the chain to the test on \<open>ai_reply\<close>: the
  result is the exception raised (\<open>Lookup\<close>: by the lookup of the preferred name, before
  any service is called), or the reply with \<open>success_provider\<close>; with it come the names of
  the services called and the store as the lookup left it.
\<close>

datatype raised = Lookup error | Exception string

definition core_reply_cycle ::
  "(string \<Rightarrow> string) \<Rightarrow> provider_manager \<Rightarrow> database \<Rightarrow> int \<Rightarrow> msg list
     \<Rightarrow> (raised + pyval \<times> string option) \<times> string list \<times> database" where
  "core_reply_cycle lower pm d user_id messages_payload =
     (case get_service_chain lower pm d user_id of
        (Inl err, d') \<Rightarrow> (Inl (Lookup err), [], d')
      | (Inr chain, d') \<Rightarrow>
          let rs = failover_loop chain messages_payload
                     \<lparr>ai_reply = PyNone, success_provider = None, usage = None,
                      error_log = [], invoked = []\<rparr>
          in if \<not> truthy (ai_reply rs)
             then (Inl (Exception (all_failed_prefix @ py_join ''; '' (error_log rs))), invoked rs, d')
             else (Inr (ai_reply rs, success_provider rs), invoked rs, d'))"

section \<open>Invariants and the write-back relation\<close>

text \<open>
  The cache is well formed when its keys are distinct (it is a dict) and the transcript of
  every entry is an allocated object.
\<close>

definition cache_wf :: "state \<Rightarrow> bool" where
  "cache_wf st \<longleftrightarrow> distinct (map fst (cache st)) \<and> (\<forall>p \<in> set (cache st). data (snd p) < next_addr st)"

text \<open>No entry was last accessed later than the clock reads: \<open>time.time()\<close> did not go back.\<close>

definition clock_ok :: "state \<Rightarrow> bool" where
  "clock_ok st \<longleftrightarrow> (\<forall>p \<in> set (cache st). last_access (snd p) \<le> clock st)"

text \<open>
  The transactions that committed between two states, and whether one of them wrote chat \<open>k\<close>.
\<close>

definition new_commits :: "state \<Rightarrow> state \<Rightarrow> (string \<times> row list) list" where
  "new_commits st st' = drop (length (commits (db st))) (commits (db st'))"

definition written :: "state \<Rightarrow> state \<Rightarrow> string \<Rightarrow> bool" where
  "written st st' k \<longleftrightarrow> k \<in> fst ` set (new_commits st st')"

text \<open>
  \<open>kept st st' k e\<close>: what became in \<open>st'\<close> of the entry \<open>e\<close> that chat \<open>k\<close> has in \<open>st\<close>.
  If a write for \<open>k\<close> committed, the store holds exactly the rows of the entry's transcript,
  otherwise the chat's rows are as before. The entry is still in the cache with the same
  transcript, and then its dirty count is 0 if a write committed and unchanged if none did;
  or it is gone from the cache, and then a write committed or the entry was clean.
\<close>

definition kept :: "state \<Rightarrow> state \<Rightarrow> string \<Rightarrow> entry \<Rightarrow> bool" where
  "kept st st' k e \<longleftrightarrow>
     (if written st st' k
      then rows_of (now_str st) (heap st (data e)) = Some (chat_history (db st') k)
      else chat_history (db st') k = chat_history (db st) k) \<and>
     (case map_of (cache st') k of
        Some e' \<Rightarrow> heap st' (data e') = heap st (data e) \<and>
                   dirty_count e' = (if written st st' k then 0 else dirty_count e)
      | None \<Rightarrow> written st st' k \<or> dirty_count e \<le> 0)"

text \<open>
  \<open>frame st st'\<close>: objects allocated in \<open>st\<close> are unchanged in \<open>st'\<close>, the clock readings
  are the same, and the log has only grown.
\<close>

definition frame :: "state \<Rightarrow> state \<Rightarrow> bool" where
  "frame st st' \<longleftrightarrow>
     next_addr st \<le> next_addr st' \<and> (\<forall>a<next_addr st. heap st' a = heap st a) \<and>
     now_str st' = now_str st \<and> clock st' = clock st \<and>
     (\<exists>l. commits (db st') = commits (db st) @ l)"

text \<open>The transcript the cache holds for a chat, if it holds one.\<close>

definition cached :: "state \<Rightarrow> string \<Rightarrow> msg list option" where
  "cached st cid = (case map_of (cache st) cid of None \<Rightarrow> None | Some e \<Rightarrow> Some (heap st (data e)))"


text \<open>
  The list that \<open>_insert_ai_reply\<close> writes back when no turn answers the user turn yet: the
  transcript with the reply inserted at the index found, or appended.
\<close>

definition inserted :: "pyval \<Rightarrow> msg \<Rightarrow> msg list \<Rightarrow> msg list" where
  "inserted u obj cur =
     (case (if truthy u then find_insert_index u cur 0 else None) of
        None \<Rightarrow> cur @ [obj]
      | Some i \<Rightarrow> if i > length cur then cur @ [obj] else list_insert i obj cur)"

text \<open>
  The names of the configured backends that were loaded, in configuration order.
  \<open>resolve_preferred lower names stored\<close> is the backend a user prefers among \<open>names\<close>,
  given the \<open>model_name\<close> stored for the user, if any: the stored name, stripped, when it is
  one of \<open>names\<close>; else the name that equals it up to case, the last such in \<open>names\<close>;
  else, also when nothing or only white space is stored, the first of \<open>names\<close>. Then what
  one backend of the chain answers to a payload (\<open>None\<close> when the call raises); whether
  that is non-empty text; an error text cut down to its first \<open>n\<close> characters when it has
  more; and the line recorded for a backend whose call raises.
\<close>

definition loaded :: "(string \<times> service option) list \<Rightarrow> string list" where
  "loaded AI_PROVIDERS = map fst (filter (\<lambda>p. snd p \<noteq> None) AI_PROVIDERS)"

definition resolve_preferred :: "(string \<Rightarrow> string) \<Rightarrow> string list \<Rightarrow> string option \<Rightarrow> string" where
  "resolve_preferred lower names stored =
     (case stored of
        None \<Rightarrow> hd names
      | Some model_name \<Rightarrow>
          if py_strip model_name = [] then hd names
          else if py_strip model_name \<in> set names then py_strip model_name
          else (case find (\<lambda>n. lower n = lower (py_strip (py_strip model_name))) (rev names) of
                  None \<Rightarrow> hd names
                | Some n \<Rightarrow> n))"

definition reply_of :: "msg list \<Rightarrow> string \<times> service \<Rightarrow> pyval" where
  "reply_of messages_payload b =
     (case get_chat_response (snd b) messages_payload (DEFAULT_TEMP (snd b)) of
        Raises err_msg \<Rightarrow> PyNone
      | Returns (ResStr s) \<Rightarrow> PyStr s
      | Returns (ResTuple r u) \<Rightarrow> r
      | Returns (ResDict dct u) \<Rightarrow>
          (if truthy (dict_get dct ''content'') then dict_get dct ''content''
           else if truthy (dict_get dct ''reply'') then dict_get dct ''reply''
           else dict_get dct ''text''))"

definition answers :: "msg list \<Rightarrow> string \<times> service \<Rightarrow> bool" where
  "answers messages_payload b \<longleftrightarrow> truthy (reply_of messages_payload b)"

definition truncated :: "nat \<Rightarrow> string \<Rightarrow> string" where
  "truncated n s = (if length (chars s) \<le> n then s else concat (take n (chars s)))"

definition failure_of :: "msg list \<Rightarrow> string \<times> service \<Rightarrow> string list" where
  "failure_of messages_payload b =
     (case get_chat_response (snd b) messages_payload (DEFAULT_TEMP (snd b)) of
        Raises err_msg \<Rightarrow> [fst b @ '': '' @ truncated 50 err_msg @ ''...'']
      | Returns result \<Rightarrow> [])"

section \<open>Concrete inputs\<close>

text \<open>A store with no rows and no failing write, and a cache manager as \<open>__init__\<close> leaves it.\<close>

definition empty_db :: database where
  "empty_db = \<lparr>chat_history = (\<lambda>_. []), user_model_prefs = Map.empty, faults = [], commits = []\<rparr>"

definition st0 :: state where
  "st0 = \<lparr>heap = (\<lambda>_. []), next_addr = 0, cache = [], db = empty_db, clock = 0,
          now_str = ''2026-01-01 00:00:00'', uuid_src = (\<lambda>n. replicate (Suc n) CHR ''u''),
          uuid_used = 0\<rparr>"

text \<open>
  A turn; a state in which a caller holds the list \<open>[turn_a]\<close> at address 0; a state whose
  cache holds that list for chat \<open>c\<close> with two unsaved changes while the next store write
  fails; a row whose \<open>msg_uuid\<close> is \<open>NULL\<close>, and a state whose store holds given rows for
  chat \<open>c\<close>.
\<close>

definition turn_a :: msg where
  "turn_a = [''role'' \<mapsto> PyStr ''user'', ''content'' \<mapsto> PyStr ''hi'', ''uuid'' \<mapsto> PyStr ''a'']"

definition st_caller :: state where
  "st_caller = st0\<lparr>heap := (heap st0)(0 := [turn_a]), next_addr := 1\<rparr>"

definition st_dirty :: state where
  "st_dirty = st0\<lparr>heap := (heap st0)(0 := [turn_a]), next_addr := 1,
                 cache := [(''c'', \<lparr>data = 0, dirty_count = 2, summary_cooldown = 0, last_access = 0\<rparr>)],
                 db := empty_db\<lparr>faults := [True]\<rparr>\<rparr>"



text \<open>A reply to \<open>turn_a\<close>.\<close>

definition reply_a :: msg where
  "reply_a = [''role'' \<mapsto> PyStr ''assistant'', ''content'' \<mapsto> PyStr ''ho'', ''uuid'' \<mapsto> PyStr ''b'',
              ''reply_to'' \<mapsto> PyStr ''a'']"

text \<open>
  Three services: one refuses the connection; one times out with a message of 48 ASCII
  characters followed by three two-byte characters (\<open>e\<close> with an acute accent), so that
  its first 50 characters are 52 bytes; one answers. Two configurations of three backends,
  the third one up or down, with the managers built from them, and a store where user 7
  has the preference \<open>DeepSeek\<close>, which differs from a configured name in case only.
\<close>

definition svc_down :: service where
  "svc_down = \<lparr>DEFAULT_TEMP = 1, get_chat_response = (\<lambda>messages temperature. Raises ''Connection error.'')\<rparr>"

definition svc_slow :: service where
  "svc_slow = \<lparr>DEFAULT_TEMP = 1, get_chat_response = (\<lambda>messages temperature.
     Raises (''Request timed out after 600 seconds of waiting: ''
             @ [CHR 0xC3, CHR 0xA9, CHR 0xC3, CHR 0xA9, CHR 0xC3, CHR 0xA9]))\<rparr>"

definition svc_up :: service where
  "svc_up = \<lparr>DEFAULT_TEMP = 1, get_chat_response = (\<lambda>messages temperature. Returns (ResStr ''hi''))\<rparr>"

definition providers_up :: "(string \<times> service option) list" where
  "providers_up = [(''grok'', Some svc_down), (''deepseek'', Some svc_slow), (''gemini'', Some svc_up)]"

definition providers_down :: "(string \<times> service option) list" where
  "providers_down = [(''grok'', Some svc_down), (''deepseek'', Some svc_slow), (''gemini'', Some svc_down)]"

definition pm_up :: provider_manager where
  "pm_up = \<lparr>services = [''grok'' \<mapsto> svc_down, ''deepseek'' \<mapsto> svc_slow, ''gemini'' \<mapsto> svc_up],
            provider_list = [''grok'', ''deepseek'', ''gemini''],
            name_map = [''grok'' \<mapsto> ''grok'', ''deepseek'' \<mapsto> ''deepseek'', ''gemini'' \<mapsto> ''gemini'']\<rparr>"

definition pm_down :: provider_manager where
  "pm_down = \<lparr>services = [''grok'' \<mapsto> svc_down, ''deepseek'' \<mapsto> svc_slow, ''gemini'' \<mapsto> svc_down],
            provider_list = [''grok'', ''deepseek'', ''gemini''],
            name_map = [''grok'' \<mapsto> ''grok'', ''deepseek'' \<mapsto> ''deepseek'', ''gemini'' \<mapsto> ''gemini'']\<rparr>"

definition db_pref :: database where
  "db_pref = empty_db\<lparr>user_model_prefs := [7 \<mapsto> ''DeepSeek'']\<rparr>"

section \<open>Lemmas on the cache operations\<close>

lemma update_absent: "map_of al k = None \<Longrightarrow> AList.update k v al = al @ [(k, v)]"
  by (induction al) auto

lemma in_update_cases: "p \<in> set (AList.update k v al) \<Longrightarrow> p = (k, v) \<or> p \<in> set al"
  by (induction al) (auto split: if_splits)

lemma sort_key_snoc_max:
  "\<forall>y\<in>set xs. f y \<le> f x \<Longrightarrow> sort_key f (xs @ [x]) = sort_key f xs @ [x]"
proof (induction xs)
  case Nil then show ?case by simp
next
  case (Cons a xs)
  have ins: "\<And>zs. f a \<le> f x \<Longrightarrow> insort_key f a (zs @ [x]) = insort_key f a zs @ [x]"
    subgoal for zs by (induction zs) auto
    done
  from Cons show ?case by (simp add: ins)
qed

lemma save_cases:
  assumes "save_chat_history d k ctx now = (ok, d')"
  shows "faults d' = tl (faults d) \<and> user_model_prefs d' = user_model_prefs d \<and>
         (if ok then \<exists>rs. rows_of now ctx = Some rs \<and> chat_history d' = (chat_history d)(k := rs)
                        \<and> commits d' = commits d @ [(k, rs)]
          else chat_history d' = chat_history d \<and> commits d' = commits d)"
  using assms by (auto simp: save_chat_history_def Let_def split: if_splits option.splits)

lemma flush_eviction_frame:
  "heap (flush_eviction st p) = heap st \<and> next_addr (flush_eviction st p) = next_addr st \<and>
   clock (flush_eviction st p) = clock st \<and> now_str (flush_eviction st p) = now_str st \<and>
   uuid_src (flush_eviction st p) = uuid_src st \<and> uuid_used (flush_eviction st p) = uuid_used st"
  by (auto simp: flush_eviction_def split: prod.splits)

lemma flush_evictions_frame:
  "heap (flush_evictions st ps) = heap st \<and> next_addr (flush_evictions st ps) = next_addr st \<and>
   clock (flush_evictions st ps) = clock st \<and> now_str (flush_evictions st ps) = now_str st \<and>
   uuid_src (flush_evictions st ps) = uuid_src st \<and> uuid_used (flush_evictions st ps) = uuid_used st"
  by (induction ps arbitrary: st) (auto simp: flush_eviction_frame)

text \<open>What one round of the loop does to the entry it handles and to the log.\<close>

lemma flush_eviction_cases:
  assumes "map_of (cache st) k = None"
  shows "\<exists>l. commits (db (flush_eviction st (k, e))) = commits (db st) @ l \<and>
     ((dirty_count e \<le> 0 \<and> l = [] \<and> flush_eviction st (k, e) = st)
      \<or> (dirty_count e > 0 \<and> (\<exists>rs. rows_of (now_str st) (heap st (data e)) = Some rs \<and> l = [(k, rs)]
            \<and> chat_history (db (flush_eviction st (k, e))) = (chat_history (db st))(k := rs))
            \<and> cache (flush_eviction st (k, e)) = cache st)
      \<or> (dirty_count e > 0 \<and> l = [] \<and> chat_history (db (flush_eviction st (k, e))) = chat_history (db st)
            \<and> cache (flush_eviction st (k, e)) = cache st @ [(k, e\<lparr>last_access := clock st\<rparr>)]))"
proof (cases "dirty_count e \<le> 0")
  case True
  then show ?thesis by (simp add: flush_eviction_def)
next
  case False
  obtain ok d where s: "save_chat_history (db st) k (heap st (data e)) (now_str st) = (ok, d)"
    by (cases "save_chat_history (db st) k (heap st (data e)) (now_str st)")
  from save_cases[OF s] False assms s show ?thesis
    by (cases ok) (auto simp: flush_eviction_def update_absent)
qed

lemma flush_eviction_other:
  assumes "k' \<noteq> fst p"
  shows "map_of (cache (flush_eviction st p)) k' = map_of (cache st) k' \<and>
         chat_history (db (flush_eviction st p)) k' = chat_history (db st) k' \<and>
         (\<exists>l. commits (db (flush_eviction st p)) = commits (db st) @ l \<and> k' \<notin> fst ` set l)"
proof -
  obtain k e where p: "p = (k, e)" by (cases p)
  obtain ok d where s: "save_chat_history (db st) k (heap st (data e)) (now_str st) = (ok, d)"
    by (cases "save_chat_history (db st) k (heap st (data e)) (now_str st)")
  from save_cases[OF s] assms s p show ?thesis
    by (cases ok) (auto simp: flush_eviction_def AList.update_conv')
qed

lemma flush_evictions_other:
  assumes "k' \<notin> fst ` set ps"
  shows "map_of (cache (flush_evictions st ps)) k' = map_of (cache st) k' \<and>
         chat_history (db (flush_evictions st ps)) k' = chat_history (db st) k' \<and>
         (\<exists>l. commits (db (flush_evictions st ps)) = commits (db st) @ l \<and> k' \<notin> fst ` set l)"
  using assms
proof (induction ps arbitrary: st)
  case Nil then show ?case by simp
next
  case (Cons p ps)
  then have a: "k' \<noteq> fst p" and b: "k' \<notin> fst ` set ps" by auto
  from flush_eviction_other[OF a, of st] Cons.IH[OF b, of "flush_eviction st p"]
  show ?case by auto
qed

text \<open>
  A chat that is in the cache when an evicted snapshot of it is written back keeps the
  entry it has, whether the write commits or fails.
\<close>

lemma flush_eviction_present:
  assumes "map_of (cache st) k = Some e0"
  shows "map_of (cache (flush_eviction st p)) k = Some e0"
proof (cases "fst p = k")
  case False
  then have "k \<noteq> fst p" by simp
  from flush_eviction_other[OF this, of st] assms show ?thesis by simp
next
  case True
  then obtain e where p: "p = (k, e)" by (cases p) auto
  obtain ok d where s: "save_chat_history (db st) k (heap st (data e)) (now_str st) = (ok, d)"
    by (cases "save_chat_history (db st) k (heap st (data e)) (now_str st)")
  from assms s show ?thesis unfolding p by (simp add: flush_eviction_def)
qed

lemma flush_evictions_present:
  assumes "map_of (cache st) k = Some e0"
  shows "map_of (cache (flush_evictions st ps)) k = Some e0"
  using assms
proof (induction ps arbitrary: st)
  case Nil
  then show ?case by simp
next
  case (Cons p ps)
  from Cons.IH[OF flush_eviction_present[OF Cons.prems, of p]] show ?case by simp
qed

lemma flush_evictions_entry:
  assumes "distinct (map fst ps)" and "(k, e) \<in> set ps" and "map_of (cache st) k = None"
  shows "\<exists>l. commits (db (flush_evictions st ps)) = commits (db st) @ l \<and>
     ((dirty_count e \<le> 0 \<and> k \<notin> fst ` set l \<and> map_of (cache (flush_evictions st ps)) k = None
         \<and> chat_history (db (flush_evictions st ps)) k = chat_history (db st) k)
      \<or> (dirty_count e > 0 \<and> k \<in> fst ` set l
            \<and> rows_of (now_str st) (heap st (data e)) = Some (chat_history (db (flush_evictions st ps)) k)
            \<and> map_of (cache (flush_evictions st ps)) k = None)
      \<or> (dirty_count e > 0 \<and> k \<notin> fst ` set l
            \<and> map_of (cache (flush_evictions st ps)) k = Some (e\<lparr>last_access := clock st\<rparr>)
            \<and> chat_history (db (flush_evictions st ps)) k = chat_history (db st) k))"
  using assms
proof (induction ps arbitrary: st)
  case Nil then show ?case by simp
next
  case (Cons p ps)
  let ?st1 = "flush_eviction st p"
  let ?st2 = "flush_evictions ?st1 ps"
  have fr: "heap ?st1 = heap st" "clock ?st1 = clock st" "now_str ?st1 = now_str st"
    by (simp_all add: flush_eviction_frame)
  show ?case
  proof (cases "p = (k, e)")
    case True
    with Cons.prems have notin: "k \<notin> fst ` set ps" by auto
    from flush_evictions_other[OF notin, of ?st1] obtain l2 where
      o: "map_of (cache ?st2) k = map_of (cache ?st1) k"
         "chat_history (db ?st2) k = chat_history (db ?st1) k"
         "commits (db ?st2) = commits (db ?st1) @ l2" "k \<notin> fst ` set l2" by blast
    from flush_eviction_cases[OF Cons.prems(3), of e] obtain l1 where
      c: "commits (db (flush_eviction st (k, e))) = commits (db st) @ l1"
       and d: "(dirty_count e \<le> 0 \<and> l1 = [] \<and> flush_eviction st (k, e) = st)
      \<or> (dirty_count e > 0 \<and> (\<exists>rs. rows_of (now_str st) (heap st (data e)) = Some rs \<and> l1 = [(k, rs)]
            \<and> chat_history (db (flush_eviction st (k, e))) = (chat_history (db st))(k := rs))
            \<and> cache (flush_eviction st (k, e)) = cache st)
      \<or> (dirty_count e > 0 \<and> l1 = [] \<and> chat_history (db (flush_eviction st (k, e))) = chat_history (db st)
            \<and> cache (flush_eviction st (k, e)) = cache st @ [(k, e\<lparr>last_access := clock st\<rparr>)])" by blast
    have "commits (db ?st2) = commits (db st) @ (l1 @ l2)" using o(3) c True by simp
    moreover from d o True Cons.prems(3) have
     "(dirty_count e \<le> 0 \<and> k \<notin> fst ` set (l1 @ l2) \<and> map_of (cache ?st2) k = None
         \<and> chat_history (db ?st2) k = chat_history (db st) k)
      \<or> (dirty_count e > 0 \<and> k \<in> fst ` set (l1 @ l2)
            \<and> rows_of (now_str st) (heap st (data e)) = Some (chat_history (db ?st2) k)
            \<and> map_of (cache ?st2) k = None)
      \<or> (dirty_count e > 0 \<and> k \<notin> fst ` set (l1 @ l2)
            \<and> map_of (cache ?st2) k = Some (e\<lparr>last_access := clock st\<rparr>)
            \<and> chat_history (db ?st2) k = chat_history (db st) k)"
      by (elim disjE) (auto simp: map_of_append map_add_def)
    ultimately show ?thesis by (metis flush_evictions.simps(2))
  next
    case False
    with Cons.prems have mem: "(k, e) \<in> set ps" and dist: "distinct (map fst ps)" and ne: "k \<noteq> fst p"
      by (auto simp: rev_image_eqI)
    from flush_eviction_other[OF ne, of st] obtain l1 where
      o: "map_of (cache ?st1) k = map_of (cache st) k"
         "chat_history (db ?st1) k = chat_history (db st) k"
         "commits (db ?st1) = commits (db st) @ l1" "k \<notin> fst ` set l1" by blast
    from Cons.IH[OF dist mem, of ?st1] o(1) Cons.prems(3) obtain l2 where
      c: "commits (db ?st2) = commits (db ?st1) @ l2"
      and d: "(dirty_count e \<le> 0 \<and> k \<notin> fst ` set l2 \<and> map_of (cache ?st2) k = None
         \<and> chat_history (db ?st2) k = chat_history (db ?st1) k)
      \<or> (dirty_count e > 0 \<and> k \<in> fst ` set l2
            \<and> rows_of (now_str ?st1) (heap ?st1 (data e)) = Some (chat_history (db ?st2) k)
            \<and> map_of (cache ?st2) k = None)
      \<or> (dirty_count e > 0 \<and> k \<notin> fst ` set l2
            \<and> map_of (cache ?st2) k = Some (e\<lparr>last_access := clock ?st1\<rparr>)
            \<and> chat_history (db ?st2) k = chat_history (db ?st1) k)" by auto
    have "commits (db ?st2) = commits (db st) @ (l1 @ l2)" using o(3) c by simp
    moreover from d o fr have
     "(dirty_count e \<le> 0 \<and> k \<notin> fst ` set (l1 @ l2) \<and> map_of (cache ?st2) k = None
         \<and> chat_history (db ?st2) k = chat_history (db st) k)
      \<or> (dirty_count e > 0 \<and> k \<in> fst ` set (l1 @ l2)
            \<and> rows_of (now_str st) (heap st (data e)) = Some (chat_history (db ?st2) k)
            \<and> map_of (cache ?st2) k = None)
      \<or> (dirty_count e > 0 \<and> k \<notin> fst ` set (l1 @ l2)
            \<and> map_of (cache ?st2) k = Some (e\<lparr>last_access := clock st\<rparr>)
            \<and> chat_history (db ?st2) k = chat_history (db st) k)"
      by (elim disjE) auto
    ultimately show ?thesis by (metis flush_evictions.simps(2))
  qed
qed

lemma evict_loop_props:
  assumes "evict_loop st items = (pending, st')" and "\<forall>p\<in>set items. data (snd p) < next_addr st"
  shows "cache st' = filter (\<lambda>x. fst x \<notin> fst ` set items) (cache st)
       \<and> next_addr st' = next_addr st + length items
       \<and> (\<forall>a<next_addr st. heap st' a = heap st a)
       \<and> db st' = db st \<and> clock st' = clock st \<and> now_str st' = now_str st
       \<and> uuid_src st' = uuid_src st \<and> uuid_used st' = uuid_used st
       \<and> map fst pending = map fst items
       \<and> (\<forall>q\<in>set pending. \<exists>e. (fst q, e) \<in> set items \<and> snd q = e\<lparr>data := data (snd q)\<rparr>
              \<and> data (snd q) < next_addr st' \<and> heap st' (data (snd q)) = heap st (data e))"
  using assms
proof (induction items arbitrary: st pending st')
  case Nil then show ?case by simp
next
  case (Cons p items)
  obtain k e where p: "p = (k, e)" by (cases p)
  let ?n = "next_addr st"
  let ?st1 = "st\<lparr>heap := (heap st)(?n := heap st (data e)), next_addr := Suc ?n,
                 cache := AList.delete k (cache st)\<rparr>"
  obtain pend' st2 where r: "evict_loop ?st1 items = (pend', st2)" by (cases "evict_loop ?st1 items")
  from Cons.prems(1) r p have res: "pending = (k, e\<lparr>data := ?n\<rparr>) # pend'" "st' = st2"
    by (simp_all add: deepcopy_entry_def deepcopy_def alloc_def)
  have pre: "\<forall>p\<in>set items. data (snd p) < next_addr ?st1" using Cons.prems(2) by auto
  note ih = Cons.IH[OF r pre]
  have e_lt: "data e < ?n" using Cons.prems(2) p by simp
  have c: "cache st' = filter (\<lambda>x. fst x \<notin> fst ` set (p # items)) (cache st)"
    using ih res p by (auto simp: AList.delete_eq intro!: filter_cong)
  have h: "\<forall>a<next_addr st. heap st' a = heap st a" using ih res by auto
  have hn: "heap st' ?n = heap st (data e)" using ih res by auto
  have q: "\<forall>q\<in>set pending. \<exists>e'. (fst q, e') \<in> set (p # items) \<and> snd q = e'\<lparr>data := data (snd q)\<rparr>
              \<and> data (snd q) < next_addr st' \<and> heap st' (data (snd q)) = heap st (data e')"
  proof
    fix q assume "q \<in> set pending"
    then consider "q = (k, e\<lparr>data := ?n\<rparr>)" | "q \<in> set pend'" using res by auto
    then show "\<exists>e'. (fst q, e') \<in> set (p # items) \<and> snd q = e'\<lparr>data := data (snd q)\<rparr>
              \<and> data (snd q) < next_addr st' \<and> heap st' (data (snd q)) = heap st (data e')"
    proof cases
      case 1
      then show ?thesis using p hn ih res by (intro exI[of _ e]) auto
    next
      case 2
      with ih res obtain e' where e': "(fst q, e') \<in> set items" "snd q = e'\<lparr>data := data (snd q)\<rparr>"
         "data (snd q) < next_addr st'" "heap st' (data (snd q)) = heap ?st1 (data e')" by blast
      from e'(1) Cons.prems(2) have "data e' < ?n" by auto
      with e' show ?thesis by (intro exI[of _ e']) auto
    qed
  qed
  from ih res c h q p show ?case by simp
qed

lemma written_append:
  "commits (db st') = commits (db st) @ l \<Longrightarrow> written st st' k \<longleftrightarrow> k \<in> fst ` set l"
  by (simp add: written_def new_commits_def)

lemma kept_trans:
  assumes k1: "kept st st1 k e" and p: "map_of (cache st1) k = Some e1" and k2: "kept st1 st2 k e1"
    and l1: "commits (db st1) = commits (db st) @ l1" and l2: "commits (db st2) = commits (db st1) @ l2"
    and n: "now_str st1 = now_str st"
  shows "kept st st2 k e"
proof -
  have w1: "written st st1 k \<longleftrightarrow> k \<in> fst ` set l1" using l1 by (rule written_append)
  have w2: "written st1 st2 k \<longleftrightarrow> k \<in> fst ` set l2" using l2 by (rule written_append)
  have "commits (db st2) = commits (db st) @ (l1 @ l2)" using l1 l2 by simp
  then have w: "written st st2 k \<longleftrightarrow> k \<in> fst ` set l1 \<or> k \<in> fst ` set l2"
    by (simp add: written_append image_Un)
  from k1 p have h1: "heap st1 (data e1) = heap st (data e)" by (simp add: kept_def)
  show ?thesis
  proof (cases "written st1 st2 k")
    case True
    with k2 h1 n w w2 show ?thesis by (auto simp: kept_def split: option.splits)
  next
    case False
    with k1 k2 p h1 n w w1 w2 show ?thesis by (auto simp: kept_def split: option.splits if_splits)
  qed
qed

lemma kept_refl: "map_of (cache st) k = Some e \<Longrightarrow> kept st st k e"
  by (simp add: kept_def written_def new_commits_def)

lemma flush_to_db_None: "map_of (cache st) k = None \<Longrightarrow> flush_to_db st k = st"
  by (simp add: flush_to_db_def)

lemma flush_to_db_Some:
  assumes "map_of (cache st) k = Some e"
      and "save_chat_history (db st) k (heap st (data e)) (now_str st) = (ok, d)"
  shows "flush_to_db st k =
           st\<lparr>heap := (heap st)(next_addr st := heap st (data e)), next_addr := Suc (next_addr st),
              db := d,
              cache := (if ok then AList.update k (e\<lparr>dirty_count := 0\<rparr>) (cache st) else cache st)\<rparr>"
  using assms by (simp add: flush_to_db_def deepcopy_def alloc_def Let_def)

lemma frame_refl: "frame st st"
  by (simp add: frame_def)

lemma frame_trans: "frame st st1 \<Longrightarrow> frame st1 st2 \<Longrightarrow> frame st st2"
  by (auto simp: frame_def)

lemma flush_to_db_props:
  assumes wf: "cache_wf st"
  shows "cache_wf (flush_to_db st c) \<and> frame st (flush_to_db st c) \<and>
         map fst (cache (flush_to_db st c)) = map fst (cache st) \<and>
         (\<forall>k e. map_of (cache st) k = Some e \<longrightarrow> kept st (flush_to_db st c) k e)"
proof (cases "map_of (cache st) c")
  case None
  then show ?thesis using wf by (simp add: flush_to_db_None frame_refl kept_refl)
next
  case (Some ec)
  obtain ok d where s: "save_chat_history (db st) c (heap st (data ec)) (now_str st) = (ok, d)"
    by (cases "save_chat_history (db st) c (heap st (data ec)) (now_str st)")
  note f = flush_to_db_Some[OF Some s]
  note sc = save_cases[OF s]
  have lt: "\<And>k e. map_of (cache st) k = Some e \<Longrightarrow> data e < next_addr st"
    using wf by (auto simp: cache_wf_def dest!: map_of_SomeD)
  have keys: "map fst (cache (flush_to_db st c)) = map fst (cache st)"
    using Some by (auto simp: f AList.update_keys dest: map_of_SomeD intro: rev_image_eqI)
  have wf': "cache_wf (flush_to_db st c)"
  proof -
    have "\<forall>p\<in>set (cache (flush_to_db st c)). data (snd p) < Suc (next_addr st)"
      using wf lt[OF Some] by (auto simp: f cache_wf_def less_Suc_eq dest!: in_update_cases)
    moreover have "distinct (map fst (cache (flush_to_db st c)))" using keys wf by (simp add: cache_wf_def)
    ultimately show ?thesis by (simp add: cache_wf_def f)
  qed
  have fr: "frame st (flush_to_db st c)"
    using sc by (cases ok) (auto simp: f frame_def)
  have kp: "kept st (flush_to_db st c) k e" if ke: "map_of (cache st) k = Some e" for k e
  proof (cases ok)
    case True
    with sc obtain rs where rs: "rows_of (now_str st) (heap st (data ec)) = Some rs"
      "chat_history d = (chat_history (db st))(c := rs)" "commits d = commits (db st) @ [(c, rs)]" by auto
    have w: "written st (flush_to_db st c) k \<longleftrightarrow> k = c"
      using rs(3) True by (auto simp: f written_def new_commits_def)
    show ?thesis
      using True rs ke Some lt[OF ke] w by (auto simp: kept_def f AList.update_conv')
  next
    case False
    with sc have rs: "chat_history d = chat_history (db st)" "commits d = commits (db st)" by auto
    have w: "\<not> written st (flush_to_db st c) k"
      using rs False by (auto simp: f written_def new_commits_def)
    show ?thesis
      using False rs ke lt[OF ke] w by (auto simp: kept_def f)
  qed
  from wf' fr keys kp show ?thesis by blast
qed

lemma same_keys_Some:
  assumes "map fst c' = map fst c" and "map_of c k = Some e"
  shows "\<exists>e'. map_of c' k = Some e'"
proof -
  from assms(2) have "k \<in> fst ` set c" by (metis map_of_eq_None_iff option.distinct(1))
  then have "k \<in> fst ` set c'" using assms(1) by (metis list.set_map)
  then show ?thesis by (metis map_of_eq_None_iff not_Some_eq)
qed

lemma kept_frame_trans:
  assumes "kept st st1 k e" and "map_of (cache st1) k = Some e1" and "kept st1 st2 k e1"
      and "frame st st1" and "frame st1 st2"
  shows "kept st st2 k e"
proof -
  from assms(4) obtain l1 where l1: "commits (db st1) = commits (db st) @ l1" and n: "now_str st1 = now_str st"
    by (auto simp: frame_def)
  from assms(5) obtain l2 where l2: "commits (db st2) = commits (db st1) @ l2" by (auto simp: frame_def)
  from kept_trans[OF assms(1,2,3) l1 l2 n] show ?thesis .
qed

lemma fold_flush_props:
  assumes "cache_wf st"
  shows "cache_wf (fold (\<lambda>c s. flush_to_db s c) ks st) \<and> frame st (fold (\<lambda>c s. flush_to_db s c) ks st) \<and>
         map fst (cache (fold (\<lambda>c s. flush_to_db s c) ks st)) = map fst (cache st) \<and>
         (\<forall>k e. map_of (cache st) k = Some e \<longrightarrow> kept st (fold (\<lambda>c s. flush_to_db s c) ks st) k e)"
  using assms
proof (induction ks arbitrary: st)
  case Nil
  then show ?case by (simp add: frame_refl kept_refl)
next
  case (Cons c ks)
  let ?st1 = "flush_to_db st c"
  let ?st2 = "fold (\<lambda>c s. flush_to_db s c) ks ?st1"
  note p1 = flush_to_db_props[OF Cons.prems, of c]
  from p1 have wf1: "cache_wf ?st1" by blast
  note p2 = Cons.IH[OF wf1]
  have "kept st ?st2 k e" if ke: "map_of (cache st) k = Some e" for k e
  proof -
    from p1 ke have k1: "kept st ?st1 k e" by blast
    from p1 have "map fst (cache ?st1) = map fst (cache st)" by blast
    from same_keys_Some[OF this ke] obtain e1 where e1: "map_of (cache ?st1) k = Some e1" by blast
    with p2 have k2: "kept ?st1 ?st2 k e1" by blast
    from p1 p2 have "frame st ?st1" "frame ?st1 ?st2" by blast+
    from kept_frame_trans[OF k1 e1 k2 this] show ?thesis .
  qed
  moreover from p1 p2 have "frame st ?st2" by (blast intro: frame_trans)
  moreover from p1 p2 have "map fst (cache ?st2) = map fst (cache st)" by simp
  moreover from p2 have "cache_wf ?st2" by blast
  ultimately show ?case by simp
qed

lemma flush_all_props:
  assumes "cache_wf st"
  shows "cache_wf (flush_all st) \<and> frame st (flush_all st) \<and>
         map fst (cache (flush_all st)) = map fst (cache st) \<and>
         (\<forall>k e. map_of (cache st) k = Some e \<longrightarrow> kept st (flush_all st) k e)"
  unfolding flush_all_def Let_def by (rule fold_flush_props[OF assms])

lemma flush_eviction_wf:
  assumes "cache_wf st" and "data (snd p) < next_addr st"
  shows "cache_wf (flush_eviction st p)"
proof -
  obtain k e where p: "p = (k, e)" by (cases p)
  obtain ok d where s: "save_chat_history (db st) k (heap st (data e)) (now_str st) = (ok, d)"
    by (cases "save_chat_history (db st) k (heap st (data e)) (now_str st)")
  have "map_of (cache st) k = None \<Longrightarrow> k \<notin> fst ` set (cache st)"
    by (simp add: map_of_eq_None_iff)
  with assms p s show ?thesis
    by (auto simp: flush_eviction_def cache_wf_def update_absent)
qed

lemma flush_evictions_wf:
  assumes "cache_wf st" and "\<forall>p\<in>set ps. data (snd p) < next_addr st"
  shows "cache_wf (flush_evictions st ps)"
  using assms
proof (induction ps arbitrary: st)
  case Nil then show ?case by simp
next
  case (Cons p ps)
  have "cache_wf (flush_eviction st p)" using Cons.prems by (simp add: flush_eviction_wf)
  moreover have "\<forall>q\<in>set ps. data (snd q) < next_addr (flush_eviction st p)"
    using Cons.prems by (simp add: flush_eviction_frame)
  ultimately show ?case using Cons.IH by simp
qed

lemma flush_evictions_log:
  "\<exists>l. commits (db (flush_evictions st ps)) = commits (db st) @ l"
proof (induction ps arbitrary: st)
  case Nil then show ?case by simp
next
  case (Cons p ps)
  obtain k e where p: "p = (k, e)" by (cases p)
  obtain ok d where s: "save_chat_history (db st) k (heap st (data e)) (now_str st) = (ok, d)"
    by (cases "save_chat_history (db st) k (heap st (data e)) (now_str st)")
  from save_cases[OF s] s p have "\<exists>l. commits (db (flush_eviction st p)) = commits (db st) @ l"
    by (cases ok) (auto simp: flush_eviction_def)
  with Cons.IH[of "flush_eviction st p"] show ?case by auto
qed

lemma evict_then_flush:
  assumes wf: "cache_wf st"
      and sub: "set items \<subseteq> set (cache st)" and dk: "distinct (map fst items)"
      and ev: "evict_loop st items = (pending, st1)"
      and mid: "next_addr st1 \<le> next_addr st2" "\<forall>a<next_addr st1. heap st2 a = heap st1 a"
               "db st2 = db st1" "now_str st2 = now_str st1" "clock st2 = clock st1"
      and gone: "\<forall>k\<in>fst ` set items. map_of (cache st2) k = None"
  shows "frame st (flush_evictions st2 pending)
       \<and> (\<forall>k e. (k, e) \<in> set items \<longrightarrow> kept st (flush_evictions st2 pending) k e)
       \<and> (\<forall>k. k \<notin> fst ` set items \<longrightarrow>
              map_of (cache (flush_evictions st2 pending)) k = map_of (cache st2) k
              \<and> chat_history (db (flush_evictions st2 pending)) k = chat_history (db st) k
              \<and> \<not> written st (flush_evictions st2 pending) k)"
proof -
  let ?st3 = "flush_evictions st2 pending"
  have bound: "\<forall>p\<in>set items. data (snd p) < next_addr st"
    using wf sub by (auto simp: cache_wf_def)
  note ep = evict_loop_props[OF ev bound]
  note fr3 = flush_evictions_frame[of st2 pending]
  from flush_evictions_log[of st2 pending] obtain l where
    l: "commits (db ?st3) = commits (db st) @ l" using ep mid by auto
  have frame: "frame st ?st3"
    using ep mid fr3 l by (auto simp: frame_def)
  have keys: "map fst pending = map fst items" using ep by blast
  have evicted: "kept st ?st3 k e" if ke: "(k, e) \<in> set items" for k e
  proof -
    from ke have "k \<in> set (map fst pending)" unfolding keys by force
    then obtain snap where q: "(k, snap) \<in> set pending" by auto
    with ep obtain e' where e': "(k, e') \<in> set items" "snap = e'\<lparr>data := data snap\<rparr>"
       "data snap < next_addr st1" "heap st1 (data snap) = heap st (data e')" by fastforce
    from dk ke e'(1) have "e' = e" by (meson eq_key_imp_eq_value)
    with e' have snap: "snap = e\<lparr>data := data snap\<rparr>" and h: "heap st2 (data snap) = heap st (data e)"
      using mid(2) by auto
    from snap have dc: "dirty_count snap = dirty_count e" by (metis entry.select_convs(2) entry.surjective entry.update_convs(1))
    have none: "map_of (cache st2) k = None" using gone ke by force
    have dp: "distinct (map fst pending)" using keys dk by simp
    from flush_evictions_entry[OF dp q none] obtain l' where
      l': "commits (db ?st3) = commits (db st2) @ l'" and
      c: "(dirty_count snap \<le> 0 \<and> k \<notin> fst ` set l' \<and> map_of (cache ?st3) k = None
         \<and> chat_history (db ?st3) k = chat_history (db st2) k)
      \<or> (dirty_count snap > 0 \<and> k \<in> fst ` set l'
            \<and> rows_of (now_str st2) (heap st2 (data snap)) = Some (chat_history (db ?st3) k)
            \<and> map_of (cache ?st3) k = None)
      \<or> (dirty_count snap > 0 \<and> k \<notin> fst ` set l'
            \<and> map_of (cache ?st3) k = Some (snap\<lparr>last_access := clock st2\<rparr>)
            \<and> chat_history (db ?st3) k = chat_history (db st2) k)" by blast
    have dbeq: "db st2 = db st" "now_str st2 = now_str st" using ep mid by auto
    from l' dbeq have w: "written st ?st3 k \<longleftrightarrow> k \<in> fst ` set l'" by (simp add: written_append)
    have h3: "heap ?st3 (data snap) = heap st (data e)" using fr3 h by simp
    from c show ?thesis
      using w h h3 dc dbeq by (elim disjE) (auto simp: kept_def)
  qed
  have others: "map_of (cache ?st3) k = map_of (cache st2) k
              \<and> chat_history (db ?st3) k = chat_history (db st) k \<and> \<not> written st ?st3 k"
    if "k \<notin> fst ` set items" for k
  proof -
    from that keys have "k \<notin> fst ` set pending" by (metis list.set_map)
    from flush_evictions_other[OF this, of st2] obtain l' where
      o: "map_of (cache ?st3) k = map_of (cache st2) k"
         "chat_history (db ?st3) k = chat_history (db st2) k"
         "commits (db ?st3) = commits (db st2) @ l'" "k \<notin> fst ` set l'" by blast
    have dbeq: "db st2 = db st" using ep mid by auto
    from o dbeq show ?thesis by (simp add: written_append)
  qed
  from frame evicted others show ?thesis by blast
qed

lemma evict_target: "\<lfloor>real MAX_CACHE_ENTRIES * 0.8\<rfloor> = 800"
  by (simp add: MAX_CACHE_ENTRIES_def)

lemma map_of_filter_keys:
  "map_of (filter (\<lambda>x. fst x \<notin> K) c) k = (if k \<in> K then None else map_of c k)"
  by (induction c) auto

lemma check_limit_new:
  assumes c: "cache st = c @ [(cid, new)]" and dist: "distinct (map fst c)"
      and la: "\<forall>p\<in>set c. last_access (snd p) \<le> last_access new"
  shows "\<exists>items. check_cache_limit_unsafe st = evict_loop st items \<and> set items \<subseteq> set c
                 \<and> distinct (map fst items)"
proof (cases "length (cache st) \<le> MAX_CACHE_ENTRIES")
  case True
  then have "check_cache_limit_unsafe st = evict_loop st []" by (simp add: check_cache_limit_unsafe_def)
  then show ?thesis by (intro exI[of _ "[]"]) simp
next
  case False
  let ?f = "\<lambda>x. last_access (snd x)"
  let ?n = "length c - 799"
  from False c have len: "length c \<ge> 1000" by (simp add: MAX_CACHE_ENTRIES_def)
  have sorted: "sort_key ?f (cache st) = sort_key ?f c @ [(cid, new)]"
    unfolding c using la by (intro sort_key_snoc_max) simp
  have etr: "nat (int (length (cache st)) - 800) = ?n" using len c by simp
  have tk: "take (min ?n (length (sort_key ?f (cache st)))) (sort_key ?f (cache st)) = take ?n (sort_key ?f c)"
  proof -
    have "?n \<le> length (sort_key ?f c)" by simp
    moreover have "min ?n (length (sort_key ?f (cache st))) = ?n" by (simp add: sorted)
    ultimately show ?thesis by (simp add: sorted)
  qed
  have "check_cache_limit_unsafe st = evict_loop st (take ?n (sort_key ?f c))"
  proof -
    have pos: "\<not> int (length (cache st)) - 800 \<le> 0" using len c by simp
    show ?thesis
      unfolding check_cache_limit_unsafe_def evict_target Let_def
      using False pos by (simp only: if_False etr tk)
  qed
  moreover have "set (take ?n (sort_key ?f c)) \<subseteq> set c"
    using set_take_subset[of ?n "sort_key ?f c"] by simp
  moreover have "distinct (map fst (take ?n (sort_key ?f c)))"
  proof -
    from dist have "distinct c" and "inj_on fst (set c)" by (auto simp: distinct_map)
    then have "distinct (map fst (sort_key ?f c))" by (simp add: distinct_map)
    then show ?thesis unfolding take_map[symmetric] by (rule distinct_take)
  qed
  ultimately show ?thesis by blast
qed

lemma kept_cong_left:
  "heap s (data e) = heap st (data e) \<Longrightarrow> db s = db st \<Longrightarrow> now_str s = now_str st
   \<Longrightarrow> kept s st' k e = kept st st' k e"
  by (simp add: kept_def written_def new_commits_def cong: option.case_cong)

lemma written_cong_left: "db s = db st \<Longrightarrow> written s st' k = written st st' k"
  by (simp add: written_def new_commits_def)

lemma frame_cong_left:
  "frame s st' \<Longrightarrow> next_addr st \<le> next_addr s \<Longrightarrow> \<forall>a<next_addr st. heap s a = heap st a \<Longrightarrow>
   db s = db st \<Longrightarrow> now_str s = now_str st \<Longrightarrow> clock s = clock st \<Longrightarrow> frame st st'"
  by (auto simp: frame_def)

text \<open>
  Admitting a new entry and evicting for capacity: \<open>s\<close> is the state with the new entry
  at the end of the cache, \<open>st1\<close> the state after the eviction loop, \<open>st2\<close> the state in
  which the queued write-backs run.
\<close>

lemma capacity_evict:
  assumes wf: "cache_wf st" and ck: "clock_ok st" and none: "map_of (cache st) cid = None"
     and s: "cache s = cache st @ [(cid, new)]" "next_addr st \<le> next_addr s"
            "\<forall>a<next_addr st. heap s a = heap st a" "db s = db st" "now_str s = now_str st"
            "clock s = clock st"
     and new: "data new < next_addr s" "last_access new = clock st"
     and chk: "check_cache_limit_unsafe s = (pending, st1)"
     and mid: "next_addr st1 \<le> next_addr st2" "\<forall>a<next_addr st1. heap st2 a = heap st1 a"
              "db st2 = db st1" "now_str st2 = now_str st1" "clock st2 = clock st1"
     and c2: "\<forall>k. k \<noteq> cid \<longrightarrow> map_of (cache st2) k = map_of (cache st1) k"
  shows "frame st (flush_evictions st2 pending)
     \<and> (\<forall>k e. map_of (cache st) k = Some e \<longrightarrow> kept st (flush_evictions st2 pending) k e)
     \<and> map_of (cache (flush_evictions st2 pending)) cid = map_of (cache st2) cid
     \<and> chat_history (db (flush_evictions st2 pending)) cid = chat_history (db st) cid
     \<and> \<not> written st (flush_evictions st2 pending) cid
     \<and> map_of (cache st1) cid = Some new
     \<and> cache_wf st1 \<and> next_addr s \<le> next_addr st1 \<and> (\<forall>a<next_addr s. heap st1 a = heap s a)
     \<and> db st1 = db s \<and> clock st1 = clock s \<and> now_str st1 = now_str s
     \<and> uuid_src st1 = uuid_src s \<and> uuid_used st1 = uuid_used s
     \<and> (\<forall>p\<in>set pending. data (snd p) < next_addr st1)"
proof -
  let ?st3 = "flush_evictions st2 pending"
  have cid_new: "cid \<notin> fst ` set (cache st)" using none by (simp add: map_of_eq_None_iff)
  have dist: "distinct (map fst (cache st))" and bnd: "\<forall>p\<in>set (cache st). data (snd p) < next_addr st"
    using wf by (auto simp: cache_wf_def)
  have la: "\<forall>p\<in>set (cache st). last_access (snd p) \<le> last_access new"
    using ck new(2) by (simp add: clock_ok_def)
  from check_limit_new[OF s(1) dist la] chk obtain items where
    items: "evict_loop s items = (pending, st1)" "set items \<subseteq> set (cache st)" "distinct (map fst items)"
    by auto
  have wfs: "cache_wf s"
    using dist bnd cid_new s(1,2) new(1) by (auto simp: cache_wf_def)
  have sub: "set items \<subseteq> set (cache s)" using items(2) s(1) by auto
  have bound: "\<forall>p\<in>set items. data (snd p) < next_addr s" using wfs sub by (auto simp: cache_wf_def)
  note ep = evict_loop_props[OF items(1) bound]
  have c1: "cache st1 = filter (\<lambda>x. fst x \<notin> fst ` set items) (cache s)" using ep by blast
  have cid_items: "cid \<notin> fst ` set items" using items(2) cid_new by auto
  have cid1: "map_of (cache st1) cid = Some new"
    using cid_items none by (simp add: c1 map_of_filter_keys s(1) map_add_def)
  have wf1: "cache_wf st1"
    using wfs ep by (auto simp: cache_wf_def c1 distinct_map_filter)
  have gone: "\<forall>k\<in>fst ` set items. map_of (cache st2) k = None"
  proof
    fix k assume k: "k \<in> fst ` set items"
    with cid_items have "k \<noteq> cid" by auto
    with c2 have "map_of (cache st2) k = map_of (cache st1) k" by simp
    with k show "map_of (cache st2) k = None" by (simp add: c1 map_of_filter_keys)
  qed
  note etf = evict_then_flush[OF wfs sub items(3) items(1) mid gone]
  have fr: "frame st ?st3" using etf s by (blast intro: frame_cong_left)
  have kp: "kept st ?st3 k e" if ke: "map_of (cache st) k = Some e" for k e
  proof -
    from ke have mem: "(k, e) \<in> set (cache st)" by (rule map_of_SomeD)
    with bnd have lt: "data e < next_addr st" by auto
    with s have hs: "heap s (data e) = heap st (data e)" by simp
    from mem cid_new have kc: "k \<noteq> cid" by force
    show ?thesis
    proof (cases "(k, e) \<in> set items")
      case True
      with etf have "kept s ?st3 k e" by blast
      then show ?thesis using kept_cong_left[OF hs s(4) s(5)] by simp
    next
      case False
      have kn: "k \<notin> fst ` set items"
      proof
        assume "k \<in> fst ` set items"
        then obtain e' where e': "(k, e') \<in> set items" by auto
        with items(2) have "(k, e') \<in> set (cache st)" by auto
        with mem dist have "e' = e" by (meson eq_key_imp_eq_value)
        with e' False show False by simp
      qed
      with etf have o: "map_of (cache ?st3) k = map_of (cache st2) k"
         "chat_history (db ?st3) k = chat_history (db s) k" "\<not> written s ?st3 k" by blast+
      have "map_of (cache st2) k = map_of (cache st1) k" using c2 kc by simp
      also have "\<dots> = Some e"
        using kn ke kc by (simp add: c1 map_of_filter_keys s(1) map_add_def)
      finally have m3: "map_of (cache ?st3) k = Some e" using o(1) by simp
      have "heap ?st3 (data e) = heap st2 (data e)" by (simp add: flush_evictions_frame)
      also have "\<dots> = heap st1 (data e)" using mid(2) ep lt s(2) by auto
      also have "\<dots> = heap s (data e)" using ep lt s(2) by auto
      finally have h3: "heap ?st3 (data e) = heap st (data e)" using hs by simp
      from o(3) have nw: "\<not> written st ?st3 k" using written_cong_left[OF s(4)] by simp
      show ?thesis using m3 h3 nw o(2) s(4) by (simp add: kept_def)
    qed
  qed
  from etf cid_items have oc: "map_of (cache ?st3) cid = map_of (cache st2) cid"
    "chat_history (db ?st3) cid = chat_history (db s) cid" "\<not> written s ?st3 cid" by blast+
  from oc(3) have nwc: "\<not> written st ?st3 cid" using written_cong_left[OF s(4)] by simp
  have pb: "\<forall>p\<in>set pending. data (snd p) < next_addr st1" using ep by blast
  from fr kp oc nwc cid1 wf1 ep pb s(4) show ?thesis by auto
qed

lemma ensure_uuid_id: "\<forall>m\<in>set ms. m ''uuid'' \<noteq> None \<Longrightarrow> ensure_uuid st ms = (ms, st)"
  by (induction ms) auto

lemma load_has_uuid: "\<forall>m\<in>set (load_chat_history d cid). m ''uuid'' \<noteq> None"
  by (simp add: load_chat_history_def msg_of_row_def)

lemma flush_if: "(if ps \<noteq> [] then flush_evictions s ps else s) = flush_evictions s ps"
  by simp

lemma get_context_hit:
  assumes "map_of (cache st) cid = Some e"
  shows "get_context st cid =
           (Inr (next_addr st),
            st\<lparr>cache := AList.update cid (e\<lparr>last_access := clock st\<rparr>) (cache st),
               heap := (heap st)(next_addr st := heap st (data e)),
               next_addr := Suc (next_addr st)\<rparr>)"
  using assms by (simp add: get_context_def deepcopy_def alloc_def AList.update_conv')

lemma get_context_miss:
  assumes wf: "cache_wf st" and ck: "clock_ok st" and none: "map_of (cache st) cid = None"
  shows "\<exists>r st'. get_context st cid = (Inr r, st')
       \<and> heap st' r = load_chat_history (db st) cid
       \<and> next_addr st < r \<and> r < next_addr st'
       \<and> map_of (cache st') cid =
            Some \<lparr>data = next_addr st, dirty_count = 0, summary_cooldown = 0, last_access = clock st\<rparr>
       \<and> heap st' (next_addr st) = load_chat_history (db st) cid
       \<and> cache_wf st' \<and> frame st st'
       \<and> chat_history (db st') cid = chat_history (db st) cid
       \<and> (\<forall>k e. map_of (cache st) k = Some e \<longrightarrow> kept st st' k e)"
proof -
  let ?loaded = "load_chat_history (db st) cid"
  let ?n = "next_addr st"
  let ?new = "\<lparr>data = ?n, dirty_count = 0, summary_cooldown = 0, last_access = clock st\<rparr>"
  let ?s = "st\<lparr>heap := (heap st)(?n := ?loaded), next_addr := Suc ?n,
              cache := AList.update cid ?new (cache st)\<rparr>"
  obtain pending st1 where chk: "check_cache_limit_unsafe ?s = (pending, st1)"
    by (cases "check_cache_limit_unsafe ?s")
  let ?r = "next_addr st1"
  let ?st2 = "st1\<lparr>heap := (heap st1)(?r := heap st1 ?n), next_addr := Suc ?r\<rparr>"
  let ?st3 = "flush_evictions ?st2 pending"
  have cs: "cache ?s = cache st @ [(cid, ?new)]" using none by (simp add: update_absent)
  have ce: "frame st ?st3
     \<and> (\<forall>k e. map_of (cache st) k = Some e \<longrightarrow> kept st ?st3 k e)
     \<and> map_of (cache ?st3) cid = map_of (cache ?st2) cid
     \<and> chat_history (db ?st3) cid = chat_history (db st) cid
     \<and> \<not> written st ?st3 cid
     \<and> map_of (cache st1) cid = Some ?new
     \<and> cache_wf st1 \<and> next_addr ?s \<le> next_addr st1 \<and> (\<forall>a<next_addr ?s. heap st1 a = heap ?s a)
     \<and> db st1 = db ?s \<and> clock st1 = clock ?s \<and> now_str st1 = now_str ?s
     \<and> uuid_src st1 = uuid_src ?s \<and> uuid_used st1 = uuid_used ?s
     \<and> (\<forall>p\<in>set pending. data (snd p) < next_addr st1)"
    by (rule capacity_evict[OF wf ck none cs _ _ _ _ _ _ _ chk]) simp_all
  from ce have cid1: "map_of (cache st1) cid = Some ?new" by blast
  from ce have "next_addr ?s \<le> next_addr st1" by blast
  then have lt: "Suc ?n \<le> ?r" by simp
  from ce have "\<forall>a<next_addr ?s. heap st1 a = heap ?s a" by blast
  then have h1: "heap st1 ?n = ?loaded" by simp
  from ce have wf1: "cache_wf st1" by blast
  from ce have pb: "\<forall>p\<in>set pending. data (snd p) < next_addr st1" by blast
  from ce have fr: "frame st ?st3" by blast
  from ce have kp: "\<forall>k e. map_of (cache st) k = Some e \<longrightarrow> kept st ?st3 k e" by blast
  from ce have ch: "chat_history (db ?st3) cid = chat_history (db st) cid" by blast
  from ce have m3: "map_of (cache ?st3) cid = map_of (cache ?st2) cid" by blast
  have eu: "ensure_uuid st ?loaded = (?loaded, st)" by (rule ensure_uuid_id[OF load_has_uuid])
  have g: "get_context st cid = (Inr ?r, ?st3)"
    by (simp add: get_context_def Let_def none eu alloc_def deepcopy_def chk cid1 flush_if)
  have wf2: "cache_wf ?st2" using wf1 by (auto simp: cache_wf_def less_Suc_eq)
  have wf3: "cache_wf ?st3" using wf2 pb by (intro flush_evictions_wf) (auto simp: less_Suc_eq)
  have hr: "heap ?st3 ?r = ?loaded" using h1 by (simp add: flush_evictions_frame)
  have hn: "heap ?st3 ?n = ?loaded" using h1 lt by (simp add: flush_evictions_frame)
  have na: "next_addr ?st3 = Suc ?r" by (simp add: flush_evictions_frame)
  have c3: "map_of (cache ?st3) cid = Some ?new" using m3 cid1 by simp
  from g hr hn na lt c3 wf3 fr ch kp show ?thesis
    by (intro exI[of _ ?r] exI[of _ ?st3]) (simp add: less_Suc_eq_le)
qed

lemma not_written_same_db: "db st' = db st \<Longrightarrow> \<not> written st st' k"
  by (simp add: written_def new_commits_def)

text \<open>
  \<open>update_context\<close> up to its last step: the state \<open>st4\<close> in which \<open>_flush_to_db\<close> runs when
  the write-back is due.
\<close>

lemma update_context_pre:
  assumes wf: "cache_wf st" and ck: "map_of (cache st) cid = None \<Longrightarrow> clock_ok st"
      and a: "a < next_addr st"
  shows "\<exists>st4 e4. update_context st cid a force =
           (Inr (), if force \<or> dirty_count e4 \<ge> SAVE_THRESHOLD then flush_to_db st4 cid else st4)
       \<and> cache_wf st4 \<and> frame st st4
       \<and> map_of (cache st4) cid = Some e4 \<and> heap st4 (data e4) = heap st a
       \<and> next_addr st \<le> data e4
       \<and> dirty_count e4 = (case map_of (cache st) cid of None \<Rightarrow> 0 | Some e \<Rightarrow> dirty_count e) + 1
       \<and> \<not> written st st4 cid \<and> chat_history (db st4) cid = chat_history (db st) cid
       \<and> (\<forall>k e. k \<noteq> cid \<longrightarrow> map_of (cache st) k = Some e \<longrightarrow> kept st st4 k e)"
proof (cases "map_of (cache st) cid")
  case (Some e)
  let ?n = "next_addr st"
  let ?e4 = "e\<lparr>data := ?n, dirty_count := dirty_count e + 1, last_access := clock st\<rparr>"
  let ?st4 = "st\<lparr>heap := (heap st)(?n := heap st a), next_addr := Suc ?n,
                cache := AList.update cid ?e4 (cache st)\<rparr>"
  have u: "update_context st cid a force =
           (Inr (), if force \<or> dirty_count ?e4 \<ge> SAVE_THRESHOLD then flush_to_db ?st4 cid else ?st4)"
    using Some by (simp add: update_context_def deepcopy_def alloc_def Let_def)
  have wf4: "cache_wf ?st4"
    using wf by (auto simp: cache_wf_def AList.distinct_update less_Suc_eq dest!: in_update_cases)
  have fr: "frame st ?st4" by (simp add: frame_def)
  have m: "map_of (cache ?st4) cid = Some ?e4" by (simp add: AList.update_conv')
  have others: "kept st ?st4 k e'" if "k \<noteq> cid" "map_of (cache st) k = Some e'" for k e'
  proof -
    from that(2) wf have "data e' < ?n" by (auto simp: cache_wf_def dest!: map_of_SomeD)
    with that show ?thesis
      by (simp add: kept_def not_written_same_db AList.update_conv')
  qed
  show ?thesis
    apply (rule exI[of _ ?st4], rule exI[of _ ?e4])
    using u wf4 fr m others Some a by (simp add: not_written_same_db)
next
  case None
  let ?n = "next_addr st"
  let ?new = "\<lparr>data = ?n, dirty_count = 0, summary_cooldown = 0, last_access = clock st\<rparr>"
  let ?s = "st\<lparr>heap := (heap st)(?n := []), next_addr := Suc ?n,
              cache := AList.update cid ?new (cache st)\<rparr>"
  obtain pending st1 where chk: "check_cache_limit_unsafe ?s = (pending, st1)"
    by (cases "check_cache_limit_unsafe ?s")
  let ?r = "next_addr st1"
  let ?e4 = "?new\<lparr>data := ?r, dirty_count := 0 + 1, last_access := clock st1\<rparr>"
  let ?st3 = "st1\<lparr>heap := (heap st1)(?r := heap st1 a), next_addr := Suc ?r,
                 cache := AList.update cid ?e4 (cache st1)\<rparr>"
  let ?st4 = "flush_evictions ?st3 pending"
  have cs: "cache ?s = cache st @ [(cid, ?new)]" using None by (simp add: update_absent)
  have ce: "frame st ?st4
     \<and> (\<forall>k e. map_of (cache st) k = Some e \<longrightarrow> kept st ?st4 k e)
     \<and> map_of (cache ?st4) cid = map_of (cache ?st3) cid
     \<and> chat_history (db ?st4) cid = chat_history (db st) cid
     \<and> \<not> written st ?st4 cid
     \<and> map_of (cache st1) cid = Some ?new
     \<and> cache_wf st1 \<and> next_addr ?s \<le> next_addr st1 \<and> (\<forall>a<next_addr ?s. heap st1 a = heap ?s a)
     \<and> db st1 = db ?s \<and> clock st1 = clock ?s \<and> now_str st1 = now_str ?s
     \<and> uuid_src st1 = uuid_src ?s \<and> uuid_used st1 = uuid_used ?s
     \<and> (\<forall>p\<in>set pending. data (snd p) < next_addr st1)"
    by (rule capacity_evict[OF wf ck[OF None] None cs _ _ _ _ _ _ _ chk])
       (simp_all add: AList.update_conv')
  from ce have cid1: "map_of (cache st1) cid = Some ?new" by blast
  from ce have "next_addr ?s \<le> next_addr st1" by blast
  then have lt: "Suc ?n \<le> ?r" by simp
  from ce have "\<forall>a<next_addr ?s. heap st1 a = heap ?s a" by blast
  then have h1: "heap st1 a = heap st a" using a by simp
  from ce have wf1: "cache_wf st1" by blast
  from ce have pb: "\<forall>p\<in>set pending. data (snd p) < next_addr st1" by blast
  from ce have fr: "frame st ?st4" by blast
  from ce have kp: "\<forall>k e. map_of (cache st) k = Some e \<longrightarrow> kept st ?st4 k e" by blast
  from ce have ch: "chat_history (db ?st4) cid = chat_history (db st) cid" by blast
  from ce have nw: "\<not> written st ?st4 cid" by blast
  from ce have m4: "map_of (cache ?st4) cid = map_of (cache ?st3) cid" by blast
  from ce have clk: "clock st1 = clock ?s" by blast
  have u: "update_context st cid a force =
           (Inr (), if force \<or> dirty_count ?e4 \<ge> SAVE_THRESHOLD then flush_to_db ?st4 cid else ?st4)"
    by (simp add: update_context_def Let_def None alloc_def deepcopy_def chk cid1 flush_if)
  have wf3: "cache_wf ?st3"
    using wf1 by (auto simp: cache_wf_def AList.distinct_update less_Suc_eq dest!: in_update_cases)
  have wf4: "cache_wf ?st4" using wf3 pb by (intro flush_evictions_wf) (auto simp: less_Suc_eq)
  have c4: "map_of (cache ?st4) cid = Some ?e4" using m4 by (simp add: AList.update_conv')
  have h4: "heap ?st4 (data ?e4) = heap st a" using h1 by (simp add: flush_evictions_frame)
  show ?thesis
    apply (rule exI[of _ ?st4], rule exI[of _ ?e4])
    using u wf4 fr c4 h4 lt nw ch kp None by simp
qed

lemma written_trans:
  assumes "frame st st1" and "frame st1 st2"
  shows "written st st2 k \<longleftrightarrow> written st st1 k \<or> written st1 st2 k"
proof -
  from assms obtain l1 l2 where l: "commits (db st1) = commits (db st) @ l1"
    "commits (db st2) = commits (db st1) @ l2" by (auto simp: frame_def)
  then have "commits (db st2) = commits (db st) @ (l1 @ l2)" by simp
  then have "written st st2 k \<longleftrightarrow> k \<in> fst ` set (l1 @ l2)" by (rule written_append)
  then show ?thesis using written_append[OF l(1)] written_append[OF l(2)] by (auto simp: image_Un)
qed

lemma flush_to_db_other:
  assumes "k \<noteq> c"
  shows "\<not> written st (flush_to_db st c) k
       \<and> chat_history (db (flush_to_db st c)) k = chat_history (db st) k
       \<and> map_of (cache (flush_to_db st c)) k = map_of (cache st) k"
proof (cases "map_of (cache st) c")
  case None
  then show ?thesis by (simp add: flush_to_db_None not_written_same_db)
next
  case (Some ec)
  obtain ok d where s: "save_chat_history (db st) c (heap st (data ec)) (now_str st) = (ok, d)"
    by (cases "save_chat_history (db st) c (heap st (data ec)) (now_str st)")
  note f = flush_to_db_Some[OF Some s]
  from save_cases[OF s] assms show ?thesis
    by (cases ok) (auto simp: f written_def new_commits_def AList.update_conv')
qed

lemma flush_to_db_data:
  assumes "map_of (cache st) k = Some e"
  shows "\<exists>e'. map_of (cache (flush_to_db st c)) k = Some e' \<and> data e' = data e"
proof (cases "map_of (cache st) c")
  case None
  then show ?thesis using assms by (simp add: flush_to_db_None)
next
  case (Some ec)
  obtain ok d where s: "save_chat_history (db st) c (heap st (data ec)) (now_str st) = (ok, d)"
    by (cases "save_chat_history (db st) c (heap st (data ec)) (now_str st)")
  note f = flush_to_db_Some[OF Some s]
  from assms Some show ?thesis by (cases ok) (auto simp: f AList.update_conv')
qed

lemma kept_untouched:
  assumes k1: "kept st st1 k e" and fr: "frame st st1" "frame st1 st2"
      and nw: "\<not> written st1 st2 k"
      and ch: "chat_history (db st2) k = chat_history (db st1) k"
      and m: "map_of (cache st2) k = map_of (cache st1) k"
      and h: "\<forall>e1. map_of (cache st1) k = Some e1 \<longrightarrow> heap st2 (data e1) = heap st1 (data e1)"
  shows "kept st st2 k e"
proof -
  have w: "written st st2 k \<longleftrightarrow> written st st1 k" using written_trans[OF fr] nw by simp
  from k1 show ?thesis
    unfolding kept_def w m ch using h by (auto split: option.splits)
qed

lemma update_context_props:
  assumes wf: "cache_wf st" and ck: "map_of (cache st) cid = None \<Longrightarrow> clock_ok st"
      and a: "a < next_addr st"
  shows "\<exists>st' e'. update_context st cid a force = (Inr (), st')
       \<and> cache_wf st' \<and> frame st st'
       \<and> map_of (cache st') cid = Some e' \<and> heap st' (data e') = heap st a
       \<and> next_addr st \<le> data e' \<and> data e' < next_addr st'
       \<and> dirty_count e' =
            (if written st st' cid then 0
             else (case map_of (cache st) cid of None \<Rightarrow> 0 | Some e \<Rightarrow> dirty_count e) + 1)
       \<and> (if written st st' cid
            then rows_of (now_str st) (heap st a) = Some (chat_history (db st') cid)
            else chat_history (db st') cid = chat_history (db st) cid)
       \<and> (\<forall>k e. k \<noteq> cid \<longrightarrow> map_of (cache st) k = Some e \<longrightarrow> kept st st' k e)"
proof -
  let ?old = "(case map_of (cache st) cid of None \<Rightarrow> 0 | Some e \<Rightarrow> dirty_count e)"
  from update_context_pre[OF wf ck a, of cid force] obtain st4 e4 where
    u: "update_context st cid a force =
           (Inr (), if force \<or> dirty_count e4 \<ge> SAVE_THRESHOLD then flush_to_db st4 cid else st4)"
    and wf4: "cache_wf st4" and fr4: "frame st st4"
    and m4: "map_of (cache st4) cid = Some e4" and h4: "heap st4 (data e4) = heap st a"
    and lo: "next_addr st \<le> data e4" and d4: "dirty_count e4 = ?old + 1"
    and nw4: "\<not> written st st4 cid" and ch4: "chat_history (db st4) cid = chat_history (db st) cid"
    and k4: "\<forall>k e. k \<noteq> cid \<longrightarrow> map_of (cache st) k = Some e \<longrightarrow> kept st st4 k e"
    by blast
  have hi4: "data e4 < next_addr st4" using wf4 m4 by (auto simp: cache_wf_def dest!: map_of_SomeD)
  show ?thesis
  proof (cases "force \<or> dirty_count e4 \<ge> SAVE_THRESHOLD")
    case False
    then have "update_context st cid a force = (Inr (), st4)" using u by simp
    then show ?thesis
      using wf4 fr4 m4 h4 lo hi4 d4 nw4 ch4 k4 by (intro exI[of _ st4] exI[of _ e4]) simp
  next
    case True
    let ?st' = "flush_to_db st4 cid"
    from True have u': "update_context st cid a force = (Inr (), ?st')" using u by simp
    note p = flush_to_db_props[OF wf4, of cid]
    from p have wf': "cache_wf ?st'" and fr': "frame st4 ?st'" by blast+
    from p m4 have kc: "kept st4 ?st' cid e4" by blast
    from flush_to_db_data[OF m4, of cid] obtain e' where
      e': "map_of (cache ?st') cid = Some e'" "data e' = data e4" by blast
    have w: "written st ?st' cid \<longleftrightarrow> written st4 ?st' cid"
      using written_trans[OF fr4 fr'] nw4 by simp
    have n4: "now_str st4 = now_str st" using fr4 by (simp add: frame_def)
    have frall: "frame st ?st'" using fr4 fr' by (rule frame_trans)
    have hi: "data e' < next_addr ?st'" using wf' e'(1) by (auto simp: cache_wf_def dest!: map_of_SomeD)
    have others: "kept st ?st' k e" if "k \<noteq> cid" "map_of (cache st) k = Some e" for k e
    proof -
      from k4 that have k1: "kept st st4 k e" by blast
      from flush_to_db_other[OF that(1), of st4] have o: "\<not> written st4 ?st' k"
        "chat_history (db ?st') k = chat_history (db st4) k"
        "map_of (cache ?st') k = map_of (cache st4) k" by blast+
      have hh: "\<forall>e1. map_of (cache st4) k = Some e1 \<longrightarrow> heap ?st' (data e1) = heap st4 (data e1)"
        using wf4 fr' by (auto simp: cache_wf_def frame_def dest!: map_of_SomeD)
      from kept_untouched[OF k1 fr4 fr' o hh] show ?thesis .
    qed
    from kc e' have "heap ?st' (data e') = heap st a \<and>
        dirty_count e' = (if written st ?st' cid then 0 else ?old + 1) \<and>
        (if written st ?st' cid
            then rows_of (now_str st) (heap st a) = Some (chat_history (db ?st') cid)
            else chat_history (db ?st') cid = chat_history (db st) cid)"
      unfolding kept_def w using h4 d4 ch4 n4 by (auto split: if_splits)
    then show ?thesis
      using u' wf' frall e' lo hi others by (intro exI[of _ ?st'] exI[of _ e']) simp
  qed
qed

lemma evict_flush_kept:
  assumes wf: "cache_wf st"
      and sub: "set items \<subseteq> set (cache st)" and dk: "distinct (map fst items)"
      and ev: "evict_loop st items = (pending, st1)"
  shows "cache_wf (flush_evictions st1 pending) \<and> frame st (flush_evictions st1 pending)
       \<and> (\<forall>k e. map_of (cache st) k = Some e \<longrightarrow> kept st (flush_evictions st1 pending) k e)"
proof -
  let ?st3 = "flush_evictions st1 pending"
  have dist: "distinct (map fst (cache st))" and bnd: "\<forall>p\<in>set (cache st). data (snd p) < next_addr st"
    using wf by (auto simp: cache_wf_def)
  have bound: "\<forall>p\<in>set items. data (snd p) < next_addr st" using bnd sub by auto
  note ep = evict_loop_props[OF ev bound]
  have c1: "cache st1 = filter (\<lambda>x. fst x \<notin> fst ` set items) (cache st)" using ep by blast
  have gone: "\<forall>k\<in>fst ` set items. map_of (cache st1) k = None"
    by (simp add: c1 map_of_filter_keys)
  note etf = evict_then_flush[OF wf sub dk ev _ _ _ _ _ gone]
  have wf1: "cache_wf st1" using wf ep by (auto simp: cache_wf_def c1 distinct_map_filter)
  have pb: "\<forall>p\<in>set pending. data (snd p) < next_addr st1" using ep by blast
  have wf3: "cache_wf ?st3" using wf1 pb by (rule flush_evictions_wf)
  have fr: "frame st ?st3" using etf by simp
  have kp: "kept st ?st3 k e" if ke: "map_of (cache st) k = Some e" for k e
  proof -
    from ke have mem: "(k, e) \<in> set (cache st)" by (rule map_of_SomeD)
    with bnd have lt: "data e < next_addr st" by auto
    show ?thesis
    proof (cases "(k, e) \<in> set items")
      case True
      with etf show ?thesis by simp
    next
      case False
      have kn: "k \<notin> fst ` set items"
      proof
        assume "k \<in> fst ` set items"
        then obtain e' where e': "(k, e') \<in> set items" by auto
        with sub have "(k, e') \<in> set (cache st)" by auto
        with mem dist have "e' = e" by (meson eq_key_imp_eq_value)
        with e' False show False by simp
      qed
      with etf have o: "map_of (cache ?st3) k = map_of (cache st1) k"
         "chat_history (db ?st3) k = chat_history (db st) k" "\<not> written st ?st3 k" by simp_all
      have m3: "map_of (cache ?st3) k = Some e" using o(1) kn ke by (simp add: c1 map_of_filter_keys)
      have "heap ?st3 (data e) = heap st1 (data e)" by (simp add: flush_evictions_frame)
      also have "\<dots> = heap st (data e)" using ep lt by auto
      finally show ?thesis using m3 o by (simp add: kept_def)
    qed
  qed
  from wf3 fr kp show ?thesis by blast
qed

lemma maintenance_cycle_props:
  assumes wf: "cache_wf st"
  shows "cache_wf (snd (maintenance_cycle st las)) \<and> frame st (snd (maintenance_cycle st las))
       \<and> (\<forall>k e. map_of (cache st) k = Some e \<longrightarrow> kept st (snd (maintenance_cycle st las)) k e)"
proof -
  define st1 where "st1 = (if clock st - las > AUTO_SAVE_INTERVAL then flush_all st else st)"
  have p1: "cache_wf st1 \<and> frame st st1 \<and> map fst (cache st1) = map fst (cache st) \<and>
         (\<forall>k e. map_of (cache st) k = Some e \<longrightarrow> kept st st1 k e)"
    unfolding st1_def using flush_all_props[OF wf] wf by (simp add: frame_refl kept_refl)
  then have wf1: "cache_wf st1" by blast
  have ck: "clock st1 = clock st" using p1 by (auto simp: frame_def)
  let ?items = "filter (\<lambda>(cid, e). clock st - last_access e > CACHE_TTL) (cache st1)"
  obtain pending st2 where ev: "evict_loop st1 ?items = (pending, st2)" by (cases "evict_loop st1 ?items")
  have dk: "distinct (map fst ?items)" using wf1 by (simp add: cache_wf_def distinct_map_filter)
  have sub: "set ?items \<subseteq> set (cache st1)" by auto
  note p2 = evict_flush_kept[OF wf1 sub dk ev]
  have m: "snd (maintenance_cycle st las) = flush_evictions st2 pending"
    using ev by (auto simp: maintenance_cycle_def evict_inactive_entries_def Let_def st1_def flush_if
        split: prod.splits if_splits)
  have "kept st (flush_evictions st2 pending) k e" if ke: "map_of (cache st) k = Some e" for k e
  proof -
    from p1 ke have k1: "kept st st1 k e" by blast
    from p1 have "map fst (cache st1) = map fst (cache st)" by blast
    from same_keys_Some[OF this ke] obtain e1 where e1: "map_of (cache st1) k = Some e1" by blast
    with p2 have k2: "kept st1 (flush_evictions st2 pending) k e1" by blast
    from p1 p2 have "frame st st1" "frame st1 (flush_evictions st2 pending)" by blast+
    from kept_frame_trans[OF k1 e1 k2 this] show ?thesis .
  qed
  moreover from p1 p2 have "frame st (flush_evictions st2 pending)" by (blast intro: frame_trans)
  moreover from p2 have "cache_wf (flush_evictions st2 pending)" by blast
  ultimately show ?thesis unfolding m by blast
qed

lemma get_context_result:
  assumes wf: "cache_wf st" and ck: "map_of (cache st) cid = None \<Longrightarrow> clock_ok st"
  shows "\<exists>r st1 e1. get_context st cid = (Inr r, st1) \<and> cache_wf st1 \<and> frame st st1
       \<and> map_of (cache st1) cid = Some e1 \<and> heap st1 (data e1) = heap st1 r
       \<and> data e1 < r \<and> r < next_addr st1 \<and> next_addr st \<le> r
       \<and> heap st1 r = (case map_of (cache st) cid of
                          Some e \<Rightarrow> heap st (data e)
                        | None \<Rightarrow> load_chat_history (db st) cid)
       \<and> (\<forall>k e. map_of (cache st) k = Some e \<longrightarrow> kept st st1 k e)"
proof (cases "map_of (cache st) cid")
  case None
  from get_context_miss[OF wf ck[OF None] None] obtain r st' where
    g: "get_context st cid = (Inr r, st')"
       "heap st' r = load_chat_history (db st) cid"
       "next_addr st < r" "r < next_addr st'"
       "map_of (cache st') cid =
            Some \<lparr>data = next_addr st, dirty_count = 0, summary_cooldown = 0, last_access = clock st\<rparr>"
       "heap st' (next_addr st) = load_chat_history (db st) cid"
       "cache_wf st'" "frame st st'"
       "\<forall>k e. map_of (cache st) k = Some e \<longrightarrow> kept st st' k e" by blast
  show ?thesis
    apply (rule exI[of _ r], rule exI[of _ st'],
           rule exI[of _ "\<lparr>data = next_addr st, dirty_count = 0, summary_cooldown = 0, last_access = clock st\<rparr>"])
    using g None by simp
next
  case (Some e)
  let ?e1 = "e\<lparr>last_access := clock st\<rparr>"
  let ?st1 = "st\<lparr>cache := AList.update cid ?e1 (cache st),
               heap := (heap st)(next_addr st := heap st (data e)),
               next_addr := Suc (next_addr st)\<rparr>"
  note g = get_context_hit[OF Some]
  have lt: "\<And>k e'. map_of (cache st) k = Some e' \<Longrightarrow> data e' < next_addr st"
    using wf by (auto simp: cache_wf_def dest!: map_of_SomeD)
  have wf1: "cache_wf ?st1"
    using wf lt[OF Some] by (auto simp: cache_wf_def AList.distinct_update less_Suc_eq dest!: in_update_cases)
  have fr: "frame st ?st1" by (simp add: frame_def)
  have kp: "kept st ?st1 k e'" if "map_of (cache st) k = Some e'" for k e'
    using that lt[OF that] Some by (auto simp: kept_def not_written_same_db AList.update_conv')
  show ?thesis
    apply (rule exI[of _ "next_addr st"], rule exI[of _ ?st1], rule exI[of _ ?e1])
    using g wf1 fr kp lt[OF Some] Some by (simp add: AList.update_conv')
qed

section \<open>Lemmas on the transcript rewrites\<close>

lemma cached_Some: "map_of (cache st) cid = Some e \<Longrightarrow> cached st cid = Some (heap st (data e))"
  by (simp add: cached_def)

lemma apply_summary_success_unfold:
  assumes "txt \<noteq> []" and "msgs \<noteq> []" and "get_context st cid = (Inr r, st1)"
  shows "apply_summary_success st cid msgs (PyStr txt) =
     (if heap st1 r \<noteq> [] \<and> \<not> length (heap st1 r) < length msgs
         \<and> truthy (dict_get (hd msgs) ''uuid'') \<and> truthy (dict_get (last msgs) ''uuid'')
         \<and> dict_get (hd msgs) ''uuid'' = dict_get (hd (heap st1 r)) ''uuid''
         \<and> dict_get (last msgs) ''uuid'' = dict_get (heap st1 r ! (length msgs - 1)) ''uuid''
      then update_context
             (st1\<lparr>uuid_used := Suc (uuid_used st1),
                  heap := (heap st1)(next_addr st1 :=
                     summary_node txt (uuid_src st1 (uuid_used st1)) (now_str st1)
                       # drop (length msgs) (heap st1 r)),
                  next_addr := Suc (next_addr st1)\<rparr>) cid (next_addr st1) True
      else (Inr (), st1))"
proof -
  have u: "apply_summary_success st cid msgs (PyStr txt) =
     (if heap st1 r = [] then (Inr (), st1)
      else if length (heap st1 r) < length msgs then (Inr (), st1)
      else if truthy (dict_get (hd msgs) ''uuid'') \<and> truthy (dict_get (last msgs) ''uuid'')
         \<and> dict_get (hd msgs) ''uuid'' = dict_get (hd (heap st1 r)) ''uuid''
         \<and> dict_get (last msgs) ''uuid'' = dict_get (heap st1 r ! (length msgs - 1)) ''uuid''
      then update_context
             (st1\<lparr>uuid_used := Suc (uuid_used st1),
                  heap := (heap st1)(next_addr st1 :=
                     summary_node txt (uuid_src st1 (uuid_used st1)) (now_str st1)
                       # drop (length msgs) (heap st1 r)),
                  next_addr := Suc (next_addr st1)\<rparr>) cid (next_addr st1) True
      else (Inr (), st1))"
    unfolding apply_summary_success_def Let_def uuid4_def alloc_def
    by (simp add: assms split del: if_split cong del: if_weak_cong del: One_nat_def)
  show ?thesis
    unfolding u
    by (cases "heap st1 r = []"; cases "length (heap st1 r) < length msgs") (simp_all only: if_True if_False simp_thms)
qed

lemma find_insert_index_spec:
  "find_insert_index u xs i =
     (if \<exists>m\<in>set xs. dict_get m ''uuid'' = u
      then Some (i + length (takeWhile (\<lambda>m. dict_get m ''uuid'' \<noteq> u) xs) + 1) else None)"
  by (induction xs arbitrary: i) auto

lemma id_found_in_range:
  assumes "m \<in> set cur" and "dict_get m ''uuid'' = u"
  shows "length (takeWhile (\<lambda>m. dict_get m ''uuid'' \<noteq> u) cur) < length cur"
  using assms by (induction cur) auto

lemma inserted_spec:
  "inserted u obj cur =
     (if truthy u \<and> (\<exists>m\<in>set cur. dict_get m ''uuid'' = u)
      then take (Suc (length (takeWhile (\<lambda>m. dict_get m ''uuid'' \<noteq> u) cur))) cur @ [obj]
           @ drop (Suc (length (takeWhile (\<lambda>m. dict_get m ''uuid'' \<noteq> u) cur))) cur
      else cur @ [obj])"
proof (cases "truthy u \<and> (\<exists>m\<in>set cur. dict_get m ''uuid'' = u)")
  case True
  then obtain m where "m \<in> set cur" and "dict_get m ''uuid'' = u" by blast
  then have "length (takeWhile (\<lambda>m. dict_get m ''uuid'' \<noteq> u) cur) < length cur"
    by (rule id_found_in_range)
  with True show ?thesis
    by (simp add: inserted_def find_insert_index_spec list_insert_def)
next
  case False
  then show ?thesis by (auto simp: inserted_def find_insert_index_spec)
qed

lemma insert_ai_reply_unfold:
  assumes "get_context st cid = (Inr r, st1)"
  shows "insert_ai_reply st cid u obj =
     (if truthy u \<and> has_reply_to u (heap st1 r) then (Inr (), st1)
      else update_context (st1\<lparr>heap := (heap st1)(r := inserted u obj (heap st1 r))\<rparr>) cid r False)"
  unfolding insert_ai_reply_def inserted_def Let_def
  by (simp add: assms split del: if_split cong del: if_weak_cong)

section \<open>Lemmas on the provider chain\<close>

lemma init_providers_list:
  "provider_list (init_providers cfg pm) = provider_list pm @ loaded cfg"
  by (induction cfg pm rule: init_providers.induct) (simp_all add: loaded_def split: option.splits)

lemma init_providers_services:
  "distinct (map fst cfg) \<Longrightarrow>
   services (init_providers cfg pm) n =
     (case map_of cfg n of Some (Some svc) \<Rightarrow> Some svc | _ \<Rightarrow> services pm n)"
proof (induction cfg pm rule: init_providers.induct)
  case (1 pm)
  then show ?case by simp
next
  case (2 name ld rest pm)
  then have nm: "map_of rest name = None" by (simp add: map_of_eq_None_iff)
  show ?case
  proof (cases ld)
    case None
    with 2 nm show ?thesis by (auto split: option.splits)
  next
    case (Some svc)
    with 2 nm show ?thesis by (auto split: option.splits)
  qed
qed

lemma loaded_iff:
  "distinct (map fst cfg) \<Longrightarrow> n \<in> set (loaded cfg) \<longleftrightarrow> (\<exists>svc. map_of cfg n = Some (Some svc))"
  by (induction cfg) (auto simp: loaded_def map_of_eq_None_iff image_iff)

lemma loaded_distinct: "distinct (map fst cfg) \<Longrightarrow> distinct (loaded cfg)"
  unfolding loaded_def by (simp add: distinct_map_filter)

lemma find_in_set: "find P xs = Some x \<Longrightarrow> x \<in> set xs"
  by (induction xs) (auto split: if_splits)

lemma fold_name_map:
  "fold (\<lambda>name m. m(lower name \<mapsto> name)) names m0 k =
     (case find (\<lambda>n. lower n = k) (rev names) of None \<Rightarrow> m0 k | Some n \<Rightarrow> Some n)"
proof (induction names rule: rev_induct)
  case Nil
  show ?case by simp
next
  case (snoc a names)
  then show ?case by simp
qed

lemma new_provider_manager_props:
  assumes pm: "new_provider_manager lower cfg = Some pm" and dn: "distinct (map fst cfg)"
  shows "provider_list pm = loaded cfg" and "provider_list pm \<noteq> []"
    and "services pm n = (case map_of cfg n of Some (Some svc) \<Rightarrow> Some svc | _ \<Rightarrow> None)"
    and "name_map pm k = find (\<lambda>n. lower n = k) (rev (loaded cfg))"
proof -
  let ?pm0 = "init_providers cfg \<lparr>services = Map.empty, provider_list = [], name_map = Map.empty\<rparr>"
  from pm have ne: "provider_list ?pm0 \<noteq> []"
    and eq: "pm = ?pm0\<lparr>name_map := fold (\<lambda>name m. m(lower name \<mapsto> name)) (provider_list ?pm0) Map.empty\<rparr>"
    by (simp_all add: new_provider_manager_def Let_def split: if_splits)
  have pl: "provider_list ?pm0 = loaded cfg" by (simp add: init_providers_list)
  show "provider_list pm = loaded cfg" unfolding eq using pl by simp
  show "provider_list pm \<noteq> []" unfolding eq using ne by simp
  show "services pm n = (case map_of cfg n of Some (Some svc) \<Rightarrow> Some svc | _ \<Rightarrow> None)"
    unfolding eq
    using init_providers_services[OF dn, of "\<lparr>services = Map.empty, provider_list = [], name_map = Map.empty\<rparr>" n]
    by (simp split: option.splits)
  have "name_map pm k = fold (\<lambda>name m. m(lower name \<mapsto> name)) (loaded cfg) Map.empty k"
    unfolding eq using pl by simp
  then show "name_map pm k = find (\<lambda>n. lower n = k) (rev (loaded cfg))"
    unfolding fold_name_map by (simp split: option.splits)
qed

lemma resolve_preferred_loaded:
  assumes "names \<noteq> []"
  shows "resolve_preferred lower names stored \<in> set names"
proof (cases stored)
  case None
  then show ?thesis using assms by (simp add: resolve_preferred_def)
next
  case (Some m)
  show ?thesis
  proof (cases "find (\<lambda>n. lower n = lower (py_strip (py_strip m))) (rev names)")
    case None
    then show ?thesis using assms Some by (simp add: resolve_preferred_def)
  next
    case (Some n)
    then have "n \<in> set names" using find_in_set[of _ "rev names" n] by simp
    then show ?thesis using assms Some \<open>stored = Some m\<close> by (simp add: resolve_preferred_def)
  qed
qed

lemma get_user_provider_name_resolves:
  assumes pl: "provider_list pm = names" and ne: "names \<noteq> []"
      and sv: "\<And>n. services pm n \<noteq> None \<longleftrightarrow> n \<in> set names"
      and nm: "\<And>k. name_map pm k = find (\<lambda>n. lower n = k) (rev names)"
      and id: "- (2 ^ 63) \<le> user_id" "user_id < 2 ^ 63"
  shows "\<exists>d'. get_user_provider_name lower pm d user_id =
                 (Inr (resolve_preferred lower names (user_model_prefs d user_id)), d')"
proof -
  obtain p ps where nl: "provider_list pm = p # ps" "hd names = p"
    using pl ne by (cases names) auto
  have gm: "get_user_model d user_id =
              Inr (case user_model_prefs d user_id of
                     None \<Rightarrow> None
                   | Some model_name \<Rightarrow> if model_name \<noteq> [] then Some (py_strip model_name) else None)"
    using id by (simp add: get_user_model_def)
  have e: "py_strip [] = []" by (simp add: py_strip_def)
  show ?thesis
  proof (cases "user_model_prefs d user_id")
    case None
    then show ?thesis by (simp add: get_user_provider_name_def gm nl resolve_preferred_def)
  next
    case (Some m)
    show ?thesis
    proof (cases "py_strip m = []")
      case True
      then show ?thesis
        using Some by (simp add: get_user_provider_name_def gm nl resolve_preferred_def)
    next
      case ns: False
      then have mn: "m \<noteq> []" using e by auto
      show ?thesis
      proof (cases "py_strip m \<in> set names")
        case True
        then show ?thesis
          using Some ns mn sv[of "py_strip m"]
          by (simp add: get_user_provider_name_def gm nl resolve_preferred_def)
      next
        case nin: False
        show ?thesis
        proof (cases "find (\<lambda>n. lower n = lower (py_strip (py_strip m))) (rev names)")
          case None
          then show ?thesis
            using Some ns mn nin sv[of "py_strip m"] nm[of "lower (py_strip (py_strip m))"]
            by (simp add: get_user_provider_name_def gm nl resolve_preferred_def)
        next
          case (Some n)
          then have "n \<in> set names" using find_in_set[of _ "rev names" n] by simp
          then have "services pm n \<noteq> None" using sv by simp
          then show ?thesis
            using Some \<open>user_model_prefs d user_id = Some m\<close> ns mn nin sv[of "py_strip m"]
              nm[of "lower (py_strip (py_strip m))"]
            by (simp add: get_user_provider_name_def gm nl resolve_preferred_def)
        qed
      qed
    qed
  qed
qed

lemma concat_chars: "concat (chars s) = s"
  by (induction s rule: chars.induct) simp_all

lemma str_slice_to_truncated: "str_slice_to (int n) s = truncated n s"
  by (simp add: str_slice_to_def slice_to_def truncated_def concat_chars)

lemma take_result_reply:
  "get_chat_response (snd b) payload (DEFAULT_TEMP (snd b)) = Returns result \<Longrightarrow>
   ai_reply (take_result result rs) = reply_of payload b
   \<and> error_log (take_result result rs) = error_log rs
   \<and> invoked (take_result result rs) = invoked rs
   \<and> success_provider (take_result result rs) = success_provider rs"
  by (cases result) (simp_all add: take_result_def reply_of_def py_or_def)

lemma failover_loop_find:
  "\<not> truthy (ai_reply rs) \<Longrightarrow>
   (case find (answers payload) chain of
      None \<Rightarrow>
        \<not> truthy (ai_reply (failover_loop chain payload rs))
        \<and> error_log (failover_loop chain payload rs) = error_log rs @ concat (map (failure_of payload) chain)
        \<and> invoked (failover_loop chain payload rs) = invoked rs @ map fst chain
    | Some b \<Rightarrow>
        answers payload b
        \<and> ai_reply (failover_loop chain payload rs) = reply_of payload b
        \<and> success_provider (failover_loop chain payload rs) = Some (fst b)
        \<and> invoked (failover_loop chain payload rs)
            = invoked rs @ map fst (takeWhile (\<lambda>b. \<not> answers payload b) chain) @ [fst b])"
proof (induction chain arbitrary: rs)
  case Nil
  then show ?case by simp
next
  case (Cons b rest)
  obtain p_name svc where b: "b = (p_name, svc)" by (cases b)
  then have fb: "fst b = p_name" by simp
  show ?case
  proof (cases "get_chat_response svc payload (DEFAULT_TEMP svc)")
    case (Raises err_msg)
    let ?rs = "rs\<lparr>invoked := invoked rs @ [p_name],
                   error_log := error_log rs @ [p_name @ '': '' @ str_slice_to 50 err_msg @ ''...'']\<rparr>"
    have na: "\<not> answers payload b" using Raises b by (simp add: answers_def reply_of_def)
    have fl: "failure_of payload b = [p_name @ '': '' @ str_slice_to 50 err_msg @ ''...'']"
      using Raises b str_slice_to_truncated[of 50 err_msg] by (simp add: failure_of_def)
    have st: "failover_loop (b # rest) payload rs = failover_loop rest payload ?rs"
      using Raises b by simp
    have "\<not> truthy (ai_reply ?rs)" using Cons.prems by simp
    from Cons.IH[OF this] show ?thesis
      unfolding st using na fl fb by (auto split: option.splits)
  next
    case (Returns result)
    let ?rs0 = "rs\<lparr>invoked := invoked rs @ [p_name]\<rparr>"
    let ?rs1 = "take_result result ?rs0"
    have r: "get_chat_response (snd b) payload (DEFAULT_TEMP (snd b)) = Returns result"
      using Returns b by simp
    note tr = take_result_reply[OF r, of ?rs0]
    have fl: "failure_of payload b = []" using Returns b by (simp add: failure_of_def)
    show ?thesis
    proof (cases "truthy (ai_reply ?rs1)")
      case True
      then have a: "answers payload b" using tr by (simp add: answers_def)
      have st: "failover_loop (b # rest) payload rs = ?rs1\<lparr>success_provider := Some p_name\<rparr>"
        using Returns b True by (simp add: Let_def)
      show ?thesis unfolding st using a tr True fb by simp
    next
      case False
      then have na: "\<not> answers payload b" using tr by (simp add: answers_def)
      have st: "failover_loop (b # rest) payload rs = failover_loop rest payload ?rs1"
        using Returns b False by (simp add: Let_def)
      from Cons.IH[OF False] show ?thesis
        unfolding st using na fl tr fb by (auto split: option.splits)
    qed
  qed
qed

lemma chain_names:
  assumes "\<forall>n\<in>set ns. services pm n \<noteq> None"
  shows "map fst (concat (map (\<lambda>name. if name \<noteq> preferred
                                        then (case services pm name of None \<Rightarrow> [] | Some svc \<Rightarrow> [(name, svc)])
                                        else []) ns))
         = filter (\<lambda>n. n \<noteq> preferred) ns"
  using assms by (induction ns) auto

lemma link_services:
  "(n, s) \<in> set (if a \<noteq> preferred
                  then (case services pm a of None \<Rightarrow> [] | Some svc \<Rightarrow> [(a, svc)])
                  else [])
   \<Longrightarrow> services pm n = Some s"
  by (cases "a = preferred"; cases "services pm a") simp_all

lemma chain_services:
  assumes "(n, s) \<in> set (concat (map (\<lambda>name. if name \<noteq> preferred
                                        then (case services pm name of None \<Rightarrow> [] | Some svc \<Rightarrow> [(name, svc)])
                                        else []) ns))"
  shows "services pm n = Some s"
proof -
  from assms obtain a where
    "(n, s) \<in> set (if a \<noteq> preferred
                  then (case services pm a of None \<Rightarrow> [] | Some svc \<Rightarrow> [(a, svc)])
                  else [])"
    unfolding set_concat set_map by blast
  then show ?thesis by (rule link_services)
qed

lemma get_service_chain_props:
  assumes pm: "new_provider_manager lower cfg = Some pm" and dn: "distinct (map fst cfg)"
      and id: "- (2 ^ 63) \<le> user_id" "user_id < 2 ^ 63"
  shows "\<exists>preferred chain d'.
       preferred = resolve_preferred lower (loaded cfg) (user_model_prefs d user_id)
     \<and> get_user_provider_name lower pm d user_id = (Inr preferred, d')
     \<and> get_service_chain lower pm d user_id = (Inr chain, d')
     \<and> preferred \<in> set (loaded cfg)
     \<and> map fst chain = preferred # filter (\<lambda>n. n \<noteq> preferred) (loaded cfg)
     \<and> distinct (map fst chain)
     \<and> (\<forall>b\<in>set chain. (fst b, Some (snd b)) \<in> set cfg)"
proof -
  note np = new_provider_manager_props[OF pm dn]
  have sv: "services pm n \<noteq> None \<longleftrightarrow> n \<in> set (loaded cfg)" for n
    unfolding np(3) loaded_iff[OF dn] by (auto split: option.splits)
  have cf: "services pm n = Some svc \<Longrightarrow> (n, Some svc) \<in> set cfg" for n svc
    unfolding np(3) by (auto split: option.splits dest: map_of_SomeD)
  have ne: "loaded cfg \<noteq> []" using np(1,2) by simp
  define preferred where "preferred = resolve_preferred lower (loaded cfg) (user_model_prefs d user_id)"
  from get_user_provider_name_resolves[OF np(1) ne sv np(4) id, of d] obtain d' where
    g: "get_user_provider_name lower pm d user_id = (Inr preferred, d')"
    unfolding preferred_def by blast
  have pl: "preferred \<in> set (loaded cfg)" unfolding preferred_def by (rule resolve_preferred_loaded[OF ne])
  then obtain svc where ps: "services pm preferred = Some svc" using sv[of preferred] by auto
  define rest where "rest = concat (map (\<lambda>name. if name \<noteq> preferred
                                        then (case services pm name of None \<Rightarrow> [] | Some svc \<Rightarrow> [(name, svc)])
                                        else []) (provider_list pm))"
  define chain where "chain = (preferred, svc) # rest"
  have ch: "get_service_chain lower pm d user_id = (Inr chain, d')"
    by (simp add: get_service_chain_def g ps chain_def rest_def)
  have al: "\<forall>n\<in>set (provider_list pm). services pm n \<noteq> None" using sv np(1) by simp
  have nm: "map fst chain = preferred # filter (\<lambda>n. n \<noteq> preferred) (loaded cfg)"
    using chain_names[OF al, of preferred] np(1) by (simp add: chain_def rest_def)
  have di: "distinct (map fst chain)"
    unfolding nm using loaded_distinct[OF dn] by simp
  have rs: "services pm n = Some s" if "(n, s) \<in> set rest" for n s
    using that unfolding rest_def by (rule chain_services)
  have mem: "\<forall>b\<in>set chain. (fst b, Some (snd b)) \<in> set cfg"
  proof
    fix b assume "b \<in> set chain"
    then have "services pm (fst b) = Some (snd b)"
      using ps rs[of "fst b" "snd b"] by (cases b) (auto simp: chain_def)
    then show "(fst b, Some (snd b)) \<in> set cfg" by (rule cf)
  qed
  show ?thesis by (intro exI conjI) (rule preferred_def g ch pl nm di mem)+
qed

lemma core_reply_cycle_find:
  assumes ch: "get_service_chain lower pm d user_id = (Inr chain, d')"
  shows "core_reply_cycle lower pm d user_id payload =
         (case find (answers payload) chain of
            None \<Rightarrow>
              (Inl (Exception (all_failed_prefix @ py_join ''; '' (concat (map (failure_of payload) chain)))),
               map fst chain, d')
          | Some b \<Rightarrow>
              (Inr (reply_of payload b, Some (fst b)),
               map fst (takeWhile (\<lambda>b. \<not> answers payload b) chain) @ [fst b], d'))"
proof -
  let ?rs0 = "\<lparr>ai_reply = PyNone, success_provider = None, usage = None, error_log = [], invoked = []\<rparr>"
  have "\<not> truthy (ai_reply ?rs0)" by simp
  from failover_loop_find[OF this, where payload = payload and chain = chain] show ?thesis
    by (auto simp: core_reply_cycle_def ch Let_def answers_def split: option.splits)
qed

section \<open>The lifecycle policy\<close>

text \<open>
  C2. With the values of config.py, a transcript longer than the safety ceiling
  \<open>MAX_SAFETY_LIMIT = 40\<close> is truncated to its last 35 turns: the result is
  \<open>(None, context[-35:])\<close>, whatever the chat kind and whatever the cooldown stored for the
  chat (the state \<open>st\<close> is arbitrary), and the forced transcript has exactly 35 turns.
\<close>

theorem safety_limit_truncates:
  assumes "int (length ctx) > MAX_SAFETY_LIMIT Config"
  shows "fst (check_and_prepare_task st Config cid chat_type ctx)
           = (None, Some (drop (length ctx - 35) ctx))
         \<and> length (drop (length ctx - 35) ctx) = 35"
proof -
  have n: "nat (int (length ctx) - 35) = length ctx - 35" by arith
  from assms show ?thesis
    by (auto simp: check_and_prepare_task_def Config_def slice_from_def Let_def n)
qed

theorem safety_limit_truncates_witness:
  "int (length (replicate 41 (Map.empty :: msg))) > MAX_SAFETY_LIMIT Config
   \<and> fst (check_and_prepare_task st0 Config ''c'' ''group'' (replicate 41 Map.empty))
       = (None, Some (replicate 35 Map.empty))"
  using safety_limit_truncates[of "replicate 41 Map.empty" st0 "''c''" "''group''"]
  by (simp add: Config_def)

text \<open>
  C3. A private chat whose cooldown is 0 and whose transcript is not longer than the
  safety ceiling: up to the trigger \<open>SUMMARY_TRIGGER_PRIVATE\<close> the result is \<open>(None, None)\<close>
  (append); above it the candidate is the oldest \<open>length - SUMMARY_RETAIN_PRIVATE\<close> turns,
  unless that number is not positive, which gives \<open>(None, None)\<close> again. The state is
  unchanged. The witness is the transcript of 36 turns under config.py: its first 21.
\<close>

theorem private_chat_policy:
  assumes "get_cooldown st cid = 0" and "int (length ctx) \<le> MAX_SAFETY_LIMIT cfg"
  shows "check_and_prepare_task st cfg cid ''private'' ctx =
    (if int (length ctx) \<le> SUMMARY_TRIGGER_PRIVATE cfg then ((None, None), st)
     else if int (length ctx) - SUMMARY_RETAIN_PRIVATE cfg \<le> 0 then ((None, None), st)
     else ((Some (take (nat (int (length ctx) - SUMMARY_RETAIN_PRIVATE cfg)) ctx), None), st))"
  using assms by (auto simp: check_and_prepare_task_def slice_to_def Let_def)

theorem private_chat_policy_witness:
  "get_cooldown st0 ''c'' = 0
   \<and> int (length (replicate 36 (Map.empty :: msg))) \<le> MAX_SAFETY_LIMIT Config
   \<and> check_and_prepare_task st0 Config ''c'' ''private'' (replicate 36 Map.empty)
       = ((Some (replicate 21 Map.empty), None), st0)"
  using private_chat_policy[of st0 "''c''" "replicate 36 Map.empty" Config]
  by (simp add: Config_def get_cooldown_def st0_def)

section \<open>The lock registry\<close>

text \<open>Each lock in the registry was made before \<open>next_lock\<close>, and no two chat ids share one.\<close>

definition locks_inv :: "lock_manager \<Rightarrow> bool" where
  "locks_inv lm \<longleftrightarrow>
     (\<forall>c l t. locks lm c = Some (l, t) \<longrightarrow> l < next_lock lm) \<and>
     (\<forall>c c' l t t'. locks lm c = Some (l, t) \<longrightarrow> locks lm c' = Some (l, t') \<longrightarrow> c = c')"

lemma locks_inv_get_lock: "locks_inv lm \<Longrightarrow> locks_inv (snd (get_lock lm c now))"
  unfolding locks_inv_def get_lock_def
  by (auto split: option.splits if_splits simp: less_Suc_eq)

lemma locks_inv_cleanup: "locks_inv lm \<Longrightarrow> locks_inv (auto_cleanup lm now held)"
  unfolding locks_inv_def auto_cleanup_def
  by (auto split: option.splits if_splits) 

lemma reachable_locks_inv: "reachable_locks lm \<Longrightarrow> locks_inv lm"
  by (induction rule: reachable_locks.induct)
     (auto simp: locks_inv_get_lock locks_inv_cleanup, simp add: locks_inv_def new_lock_manager_def)

lemma get_lock_stored: "\<exists>t. locks (snd (get_lock lm c now)) c = Some (fst (get_lock lm c now), t)"
  by (auto simp: get_lock_def split: option.splits)

lemma get_lock_keeps: "locks lm c = Some (l, t) \<Longrightarrow> \<exists>t'. locks (snd (get_lock lm c' now)) c = Some (l, t')"
  by (auto simp: get_lock_def split: option.splits)

lemma get_locks_keeps: "locks lm c = Some (l, t) \<Longrightarrow> \<exists>t'. locks (get_locks lm calls) c = Some (l, t')"
proof (induction calls arbitrary: lm t)
  case Nil then show ?case by simp
next
  case (Cons a calls)
  obtain c' now where a: "a = (c', now)" by (cases a)
  from get_lock_keeps[OF Cons.prems, of c' now] obtain t' where
    "locks (snd (get_lock lm c' now)) c = Some (l, t')" by blast
  from Cons.IH[OF this] show ?case by (simp add: a)
qed

lemma get_locks_inv: "locks_inv lm \<Longrightarrow> locks_inv (get_locks lm calls)"
  by (induction calls arbitrary: lm) (auto simp: locks_inv_get_lock)

lemma get_lock_hit: "locks lm c = Some (l, t) \<Longrightarrow> fst (get_lock lm c now) = l"
  by (simp add: get_lock_def)

text \<open>
  C8. In every registry that can arise, a call of \<open>get_lock\<close> for chat id \<open>c\<close>, any
  number of further \<open>get_lock\<close> calls for any chat ids, and then a call for \<open>c\<close> again
  return the identical lock object; a call for a different chat id \<open>c'\<close> returns a
  different object. (A sweep between the two calls may remove an idle lock; the next
  call then makes a new one.)
\<close>

theorem lock_identity:
  assumes "reachable_locks lm"
  shows "fst (get_lock (get_locks (snd (get_lock lm c now)) calls) c now') = fst (get_lock lm c now)
       \<and> (c' \<noteq> c \<longrightarrow>
         fst (get_lock (get_locks (snd (get_lock lm c now)) calls) c' now') \<noteq> fst (get_lock lm c now))"
proof (intro conjI impI)
  let ?l = "fst (get_lock lm c now)"
  let ?lm1 = "snd (get_lock lm c now)"
  let ?lm2 = "get_locks ?lm1 calls"
  obtain t where "locks ?lm1 c = Some (?l, t)" using get_lock_stored by blast
  then obtain t' where t': "locks ?lm2 c = Some (?l, t')" using get_locks_keeps by blast
  then show "fst (get_lock ?lm2 c now') = ?l" by (rule get_lock_hit)
  have inv: "locks_inv ?lm2"
    using assms by (simp add: reachable_locks_inv locks_inv_get_lock get_locks_inv)
  assume that: "c' \<noteq> c"
  show "fst (get_lock ?lm2 c' now') \<noteq> ?l"
  proof (cases "locks ?lm2 c'")
    case None
    then have "fst (get_lock ?lm2 c' now') = next_lock ?lm2" by (simp add: get_lock_def)
    moreover have "?l < next_lock ?lm2" using inv t' by (auto simp: locks_inv_def)
    ultimately show ?thesis by simp
  next
    case (Some p)
    obtain l2 t2 where p: "p = (l2, t2)" by (cases p)
    with Some have "fst (get_lock ?lm2 c' now') = l2" by (simp add: get_lock_def)
    moreover have "l2 \<noteq> ?l" using inv t' Some p that by (auto simp: locks_inv_def)
    ultimately show ?thesis by simp
  qed
qed


theorem lock_identity_witness:
  "reachable_locks (new_lock_manager 600)
   \<and> fst (get_lock (get_locks (snd (get_lock (new_lock_manager 600) ''1'' 0)) [(''2'', 1), (''1'', 2)]) ''1'' 3) = 0
   \<and> fst (get_lock (get_locks (snd (get_lock (new_lock_manager 600) ''1'' 0)) [(''2'', 1), (''1'', 2)]) ''2'' 3) = 1"
proof -
  have r: "reachable_locks (new_lock_manager 600)" by (rule reachable_locks.init)
  show ?thesis
    using r lock_identity[OF r, of "''1''" 0 "[(''2'', 1), (''1'', 2)]" 3 "''2''"]
    by (simp add: get_lock_def new_lock_manager_def)
qed

section \<open>The conversation cache\<close>

text \<open>
  C4. In a well-formed cache, with a clock that did not go back, \<open>update_context\<close> with the
  list object at address \<open>a\<close> and then \<open>get_context\<close> both return normally, and the list
  that \<open>get_context\<close> returns is a new object \<open>r\<close> whose content is the content \<open>a\<close> had at
  the update. Whatever the caller then writes into the object it got (\<open>r\<close>) and into the
  object it passed (\<open>a\<close>), at whatever time, the next \<open>get_context\<close> returns the content
  that was set: the cache holds its own copy and hands out copies.
\<close>

theorem get_after_update:
  assumes wf: "cache_wf st" and ck: "clock_ok st" and a: "a < next_addr st"
  shows "\<exists>st1 r st2. update_context st cid a force_save = (Inr (), st1)
           \<and> get_context st1 cid = (Inr r, st2) \<and> heap st2 r = heap st a \<and> r \<noteq> a
           \<and> (\<forall>v w t. \<exists>r' st3.
                 get_context (st2\<lparr>heap := (heap st2)(r := v, a := w), clock := t\<rparr>) cid = (Inr r', st3)
                 \<and> heap st3 r' = heap st a)"
proof -
  from update_context_props[OF wf ck a, of cid force_save] obtain st1 e1 where
    u: "update_context st cid a force_save = (Inr (), st1)" and wf1: "cache_wf st1"
    and m1: "map_of (cache st1) cid = Some e1" and h1: "heap st1 (data e1) = heap st a"
    and lo: "next_addr st \<le> data e1" and hi: "data e1 < next_addr st1" by blast
  let ?r = "next_addr st1"
  let ?e2 = "e1\<lparr>last_access := clock st1\<rparr>"
  let ?st2 = "st1\<lparr>cache := AList.update cid ?e2 (cache st1),
               heap := (heap st1)(?r := heap st1 (data e1)),
               next_addr := Suc ?r\<rparr>"
  note g = get_context_hit[OF m1]
  have ra: "?r \<noteq> a" using a lo hi by simp
  have mut: "\<exists>r' st3. get_context (?st2\<lparr>heap := (heap ?st2)(?r := v, a := w), clock := t\<rparr>) cid = (Inr r', st3)
                 \<and> heap st3 r' = heap st a" for v w t
  proof -
    let ?m = "?st2\<lparr>heap := (heap ?st2)(?r := v, a := w), clock := t\<rparr>"
    have mm: "map_of (cache ?m) cid = Some ?e2" by (simp add: AList.update_conv')
    have "heap ?m (data ?e2) = heap st a" using h1 a lo hi by simp
    with get_context_hit[OF mm] show ?thesis by simp
  qed
  show ?thesis
    apply (rule exI[of _ st1], rule exI[of _ ?r], rule exI[of _ ?st2])
    using u g h1 ra mut by simp
qed

theorem get_after_update_witness:
  "cache_wf st_caller \<and> clock_ok st_caller \<and> 0 < next_addr st_caller
   \<and> (\<exists>st1 r st2. update_context st_caller ''c'' 0 False = (Inr (), st1)
           \<and> get_context st1 ''c'' = (Inr r, st2) \<and> heap st2 r = [turn_a] \<and> r \<noteq> 0
           \<and> (\<forall>v w t. \<exists>r' st3.
                 get_context (st2\<lparr>heap := (heap st2)(r := v, 0 := w), clock := t\<rparr>) ''c'' = (Inr r', st3)
                 \<and> heap st3 r' = [turn_a]))"
proof -
  have h: "cache_wf st_caller" "clock_ok st_caller" "0 < next_addr st_caller"
    by (simp_all add: cache_wf_def clock_ok_def st_caller_def st0_def)
  have c: "heap st_caller 0 = [turn_a]" by (simp add: st_caller_def)
  from get_after_update[OF h, of "''c''" False] h c show ?thesis by simp
qed

text \<open>
  C5 as stated fails when the chat comes back into the cache between the eviction of its
  entry and the write-back of the evicted snapshot, which \<open>_flush_evictions\<close> does outside
  the cache lock: the cache holds \<open>[turn_a]\<close> for chat \<open>c\<close> with two unsaved changes, the
  idle eviction takes the entry out, \<open>get_context\<close> loads the chat anew from the store
  (which has no turn of it), the write of the snapshot fails, and \<open>_flush_evictions\<close>
  finds the chat in the cache and drops the snapshot. Nothing was written, and
  \<open>get_context\<close> returns the empty transcript.
\<close>

theorem eviction_race_drops_unsaved_counterexample:
  "(case evict_inactive_entries (st_dirty\<lparr>clock := 2000\<rparr>) 2000 of
      (pending, st1) \<Rightarrow>
        (case get_context st1 ''c'' of
           (res, st2) \<Rightarrow>
             cached (st_dirty\<lparr>clock := 2000\<rparr>) ''c'' = Some [turn_a]
             \<and> pending = [(''c'', \<lparr>data = 1, dirty_count = 2, summary_cooldown = 0, last_access = 0\<rparr>)]
             \<and> heap st1 1 = [turn_a]
             \<and> cache st1 = []
             \<and> faults (db st2) = [True]
             \<and> commits (db (flush_evictions st2 pending)) = []
             \<and> chat_history (db (flush_evictions st2 pending)) ''c'' = []
             \<and> cached (flush_evictions st2 pending) ''c'' = Some []
             \<and> (case get_context (flush_evictions st2 pending) ''c'' of
                  (Inr r, st3) \<Rightarrow> heap st3 r = []
                | (Inl err, st3) \<Rightarrow> False)))"
  by (simp add: evict_inactive_entries_def CACHE_TTL_def st_dirty_def st0_def empty_db_def
        deepcopy_entry_def deepcopy_def alloc_def get_context_def load_chat_history_def
        check_cache_limit_unsafe_def MAX_CACHE_ENTRIES_def flush_eviction_def
        save_chat_history_def cached_def Let_def)

text \<open>
  C5, amended. Every write-back path keeps unsaved data (see \<open>kept\<close>), unless the chat was
  admitted to the cache again between the eviction of its entry and the failed write of
  the evicted snapshot: then the cache keeps the entry it has and the snapshot is
  dropped (the last part of the statement). For every entry of a
  well-formed cache: after \<open>_flush_to_db\<close> (the dirty-threshold and the forced save), after
  \<open>flush_all\<close>, after a maintenance round (autosave and idle eviction), after
  \<open>get_context\<close> and after \<open>update_context\<close> of another chat (capacity eviction), the entry
  is kept: unless a write for its chat committed, it is still in the cache with the same
  transcript and the same dirty count (or it was clean and evicted), and the dirty count
  is 0 only after a committed write. \<open>get_context\<close> and \<open>update_context\<close> return normally
  though writes fail, the other operations have no error result at all. The chat that
  \<open>update_context\<close> updates holds the new transcript, with the dirty count one higher
  unless its write committed. An entry that is in the cache is what \<open>get_context\<close> returns.
  Last, \<open>_flush_evictions\<close> in any state \<open>s\<close>, for a snapshot \<open>p\<close> of chat \<open>k\<close> with unsaved
  changes among the evicted entries: when \<open>k\<close> is not in the cache, either the write
  commits and the store holds the rows of the snapshot, or the snapshot is admitted to
  the cache again, with its transcript and its dirty count; when \<open>k\<close> is in the cache, its
  entry there stays as it is.
\<close>

theorem write_back_keeps_unsaved:
  assumes wf: "cache_wf st" and ke: "map_of (cache st) k = Some e"
  shows "kept st (flush_to_db st c) k e
       \<and> kept st (flush_all st) k e
       \<and> kept st (snd (maintenance_cycle st last_auto_save)) k e
       \<and> (clock_ok st \<longrightarrow> (\<exists>r st'. get_context st c = (Inr r, st') \<and> kept st st' k e))
       \<and> (clock_ok st \<and> a < next_addr st \<longrightarrow>
            (\<exists>st' e'. update_context st c a force_save = (Inr (), st')
               \<and> (k \<noteq> c \<longrightarrow> kept st st' k e)
               \<and> map_of (cache st') c = Some e' \<and> heap st' (data e') = heap st a
               \<and> dirty_count e' =
                    (if written st st' c then 0
                     else (case map_of (cache st) c of None \<Rightarrow> 0 | Some e0 \<Rightarrow> dirty_count e0) + 1)))
       \<and> (\<forall>st' e'. map_of (cache st') k = Some e' \<longrightarrow>
              (\<exists>r st''. get_context st' k = (Inr r, st'') \<and> heap st'' r = heap st' (data e')))
       \<and> (\<forall>s ps p. distinct (map fst ps) \<and> (k, p) \<in> set ps \<and> 0 < dirty_count p \<longrightarrow>
              heap (flush_evictions s ps) = heap s
              \<and> (case map_of (cache s) k of
                    None \<Rightarrow>
                      if written s (flush_evictions s ps) k
                      then rows_of (now_str s) (heap s (data p))
                             = Some (chat_history (db (flush_evictions s ps)) k)
                           \<and> map_of (cache (flush_evictions s ps)) k = None
                      else chat_history (db (flush_evictions s ps)) k = chat_history (db s) k
                           \<and> map_of (cache (flush_evictions s ps)) k = Some (p\<lparr>last_access := clock s\<rparr>)
                  | Some e0 \<Rightarrow> map_of (cache (flush_evictions s ps)) k = Some e0))"
proof (intro conjI impI allI)
  show "kept st (flush_to_db st c) k e" using flush_to_db_props[OF wf, of c] ke by blast
  show "kept st (flush_all st) k e" using flush_all_props[OF wf] ke by blast
  show "kept st (snd (maintenance_cycle st last_auto_save)) k e"
    using maintenance_cycle_props[OF wf, of last_auto_save] ke by blast
next
  assume ck: "clock_ok st"
  from get_context_result[OF wf ck, of c] ke
  show "\<exists>r st'. get_context st c = (Inr r, st') \<and> kept st st' k e" by blast
next
  assume "clock_ok st \<and> a < next_addr st"
  then have ck: "clock_ok st" and a: "a < next_addr st" by simp_all
  from update_context_props[OF wf ck a, of c force_save] ke
  show "\<exists>st' e'. update_context st c a force_save = (Inr (), st')
               \<and> (k \<noteq> c \<longrightarrow> kept st st' k e)
               \<and> map_of (cache st') c = Some e' \<and> heap st' (data e') = heap st a
               \<and> dirty_count e' =
                    (if written st st' c then 0
                     else (case map_of (cache st) c of None \<Rightarrow> 0 | Some e0 \<Rightarrow> dirty_count e0) + 1)"
    by blast
next
  fix st' :: state and e' :: entry assume "map_of (cache st') k = Some e'"
  from get_context_hit[OF this]
  show "\<exists>r st''. get_context st' k = (Inr r, st'') \<and> heap st'' r = heap st' (data e')" by simp
next
  fix s :: state and ps :: "(string \<times> entry) list" and p :: entry
  show "heap (flush_evictions s ps) = heap s" by (simp add: flush_evictions_frame)
next
  fix s :: state and ps :: "(string \<times> entry) list" and p :: entry
  assume "distinct (map fst ps) \<and> (k, p) \<in> set ps \<and> 0 < dirty_count p"
  then have d: "distinct (map fst ps)" and i: "(k, p) \<in> set ps" and dc: "0 < dirty_count p"
    by simp_all
  let ?s' = "flush_evictions s ps"
  show "case map_of (cache s) k of
          None \<Rightarrow>
            if written s ?s' k
            then rows_of (now_str s) (heap s (data p)) = Some (chat_history (db ?s') k)
                 \<and> map_of (cache ?s') k = None
            else chat_history (db ?s') k = chat_history (db s) k
                 \<and> map_of (cache ?s') k = Some (p\<lparr>last_access := clock s\<rparr>)
        | Some e0 \<Rightarrow> map_of (cache ?s') k = Some e0"
  proof (cases "map_of (cache s) k")
    case None
    from flush_evictions_entry[OF d i None] obtain l where
      c: "commits (db ?s') = commits (db s) @ l" and
      o: "(dirty_count p \<le> 0 \<and> k \<notin> fst ` set l \<and> map_of (cache ?s') k = None
             \<and> chat_history (db ?s') k = chat_history (db s) k)
          \<or> (dirty_count p > 0 \<and> k \<in> fst ` set l
                \<and> rows_of (now_str s) (heap s (data p)) = Some (chat_history (db ?s') k)
                \<and> map_of (cache ?s') k = None)
          \<or> (dirty_count p > 0 \<and> k \<notin> fst ` set l
                \<and> map_of (cache ?s') k = Some (p\<lparr>last_access := clock s\<rparr>)
                \<and> chat_history (db ?s') k = chat_history (db s) k)" by blast
    have w: "written s ?s' k \<longleftrightarrow> k \<in> fst ` set l" using c by (rule written_append)
    from o dc show ?thesis unfolding None w by auto
  next
    case (Some e0)
    from flush_evictions_present[OF Some, of ps] show ?thesis unfolding Some by simp
  qed
qed

theorem write_back_keeps_unsaved_witness:
  "cache_wf st_dirty
   \<and> map_of (cache st_dirty) ''c'' =
         Some \<lparr>data = 0, dirty_count = 2, summary_cooldown = 0, last_access = 0\<rparr>
   \<and> kept st_dirty (flush_to_db st_dirty ''c'') ''c''
         \<lparr>data = 0, dirty_count = 2, summary_cooldown = 0, last_access = 0\<rparr>
   \<and> \<not> written st_dirty (flush_to_db st_dirty ''c'') ''c''
   \<and> map_of (cache (flush_to_db st_dirty ''c'')) ''c'' =
         Some \<lparr>data = 0, dirty_count = 2, summary_cooldown = 0, last_access = 0\<rparr>"
proof -
  let ?e = "\<lparr>data = 0, dirty_count = 2, summary_cooldown = 0, last_access = 0\<rparr>"
  have h1: "cache_wf st_dirty" by (simp add: cache_wf_def st_dirty_def st0_def)
  have h2: "map_of (cache st_dirty) ''c'' = Some ?e" by (simp add: st_dirty_def)
  from write_back_keeps_unsaved[OF h1 h2, of "''c''"]
  have k: "kept st_dirty (flush_to_db st_dirty ''c'') ''c'' ?e" by blast
  have f: "save_chat_history (db st_dirty) ''c'' (heap st_dirty (data ?e)) (now_str st_dirty)
            = (False, empty_db)"
    by (simp add: save_chat_history_def st_dirty_def st0_def empty_db_def)
  note fl = flush_to_db_Some[OF h2 f]
  have "commits (db (flush_to_db st_dirty ''c'')) = []" by (simp add: fl empty_db_def)
  then have w: "\<not> written st_dirty (flush_to_db st_dirty ''c'') ''c''"
    by (simp add: written_def new_commits_def)
  have m: "map_of (cache (flush_to_db st_dirty ''c'')) ''c'' = Some ?e"
    by (simp add: fl h2)
  from h1 h2 k w m show ?thesis by blast
qed


section \<open>The transcript rewrites\<close>

text \<open>
  C1. Let the summary text be non-empty and the candidate non-empty, and let
  \<open>get_context\<close> return the live transcript \<open>heap st1 r\<close>, which is the transcript the cache
  holds. Then \<open>apply_summary_success\<close> returns normally, and afterwards the cache holds:
  one new turn, whose role is \<open>system\<close>, whose content is the label \<open>summary_prefix\<close>
  followed by the summary text, whose id is the next value of \<open>uuid4\<close> and whose time
  stamp is the current time, and after it nothing but the live transcript without its
  first \<open>length msgs\<close> turns, if the live
  transcript is not empty and not shorter than the candidate, the candidate's first and
  last ids are present (neither \<open>None\<close> nor empty) and they equal the live transcript's
  first id and its id at the candidate's last position; and the live transcript,
  unchanged, in every other case.
\<close>

theorem summary_replaces_prefix:
  assumes wf: "cache_wf st" and ck: "clock_ok st"
      and tx: "txt \<noteq> []" and msgs: "msgs \<noteq> []"
      and g: "get_context st cid = (Inr r, st1)"
  shows "cached st1 cid = Some (heap st1 r)
       \<and> (\<exists>st'. apply_summary_success st cid msgs (PyStr txt) = (Inr (), st')
            \<and> cached st' cid = Some
               (if heap st1 r \<noteq> [] \<and> \<not> length (heap st1 r) < length msgs
                   \<and> truthy (dict_get (hd msgs) ''uuid'') \<and> truthy (dict_get (last msgs) ''uuid'')
                   \<and> dict_get (hd msgs) ''uuid'' = dict_get (hd (heap st1 r)) ''uuid''
                   \<and> dict_get (last msgs) ''uuid'' = dict_get (heap st1 r ! (length msgs - 1)) ''uuid''
                then [''role'' \<mapsto> PyStr ''system'', ''content'' \<mapsto> PyStr (summary_prefix @ txt),
                      ''uuid'' \<mapsto> PyStr (uuid_src st1 (uuid_used st1)), ''ts'' \<mapsto> PyStr (now_str st1)]
                       # drop (length msgs) (heap st1 r)
                else heap st1 r))"
proof -
  let ?cur = "heap st1 r"
  let ?cond = "heap st1 r \<noteq> [] \<and> \<not> length (heap st1 r) < length msgs
                   \<and> truthy (dict_get (hd msgs) ''uuid'') \<and> truthy (dict_get (last msgs) ''uuid'')
                   \<and> dict_get (hd msgs) ''uuid'' = dict_get (hd (heap st1 r)) ''uuid''
                   \<and> dict_get (last msgs) ''uuid'' = dict_get (heap st1 r ! (length msgs - 1)) ''uuid''"
  let ?new = "summary_node txt (uuid_src st1 (uuid_used st1)) (now_str st1) # drop (length msgs) ?cur"
  from get_context_result[OF wf ck, of cid] obtain r' st1' e1 where
    g': "get_context st cid = (Inr r', st1')" and
    f': "cache_wf st1'" "map_of (cache st1') cid = Some e1" "heap st1' (data e1) = heap st1' r'"
    by blast
  have "(Inr r' :: error + addr, st1') = (Inr r, st1)" unfolding g'[symmetric] by (rule g)
  then have eq: "r' = r" "st1' = st1" by (simp_all only: prod.inject sum.inject)
  note wf1 = f'(1)[unfolded eq] and m1 = f'(2)[unfolded eq] and h1 = f'(3)[unfolded eq]
  have c1: "cached st1 cid = Some ?cur" using m1 h1 by (simp add: cached_def)
  have "\<exists>st'. apply_summary_success st cid msgs (PyStr txt) = (Inr (), st')
            \<and> cached st' cid = Some (if ?cond then ?new else ?cur)"
  proof (cases ?cond)
    case False
    have ap: "apply_summary_success st cid msgs (PyStr txt) = (Inr (), st1)"
      unfolding apply_summary_success_unfold[OF tx msgs g] by (rule if_not_P[OF False])
    have e: "(if ?cond then ?new else ?cur) = ?cur" by (rule if_not_P[OF False])
    have "apply_summary_success st cid msgs (PyStr txt) = (Inr (), st1)
            \<and> cached st1 cid = Some (if ?cond then ?new else ?cur)"
      unfolding e using ap c1 by (rule conjI)
    then show ?thesis by blast
  next
    case True
    let ?a = "next_addr st1"
    let ?st3 = "st1\<lparr>uuid_used := Suc (uuid_used st1), heap := (heap st1)(?a := ?new), next_addr := Suc ?a\<rparr>"
    have ap: "apply_summary_success st cid msgs (PyStr txt) = update_context ?st3 cid ?a True"
      unfolding apply_summary_success_unfold[OF tx msgs g] by (rule if_P[OF True])
    have wf3: "cache_wf ?st3" using wf1 by (auto simp: cache_wf_def less_Suc_eq)
    have m3: "map_of (cache ?st3) cid = None \<Longrightarrow> clock_ok ?st3" using m1 by simp
    have a3: "?a < next_addr ?st3" by simp
    from update_context_props[OF wf3 m3 a3, where force = True] obtain st' e' where
      u: "update_context ?st3 cid ?a True = (Inr (), st')" "map_of (cache st') cid = Some e'"
         "heap st' (data e') = heap ?st3 ?a" by blast
    then have c: "cached st' cid = Some ?new" by (simp add: cached_def)
    have ap': "apply_summary_success st cid msgs (PyStr txt) = (Inr (), st')" using ap u(1) by simp
    have e: "(if ?cond then ?new else ?cur) = ?new" by (rule if_P[OF True])
    have "apply_summary_success st cid msgs (PyStr txt) = (Inr (), st')
            \<and> cached st' cid = Some (if ?cond then ?new else ?cur)"
      unfolding e using ap' c by (rule conjI)
    then show ?thesis by blast
  qed
  with c1 show ?thesis unfolding summary_node_def by (rule conjI)
qed

theorem summary_replaces_prefix_witness:
  "cache_wf st_dirty \<and> clock_ok st_dirty \<and> ''recap'' \<noteq> [] \<and> [turn_a] \<noteq> []
   \<and> get_context st_dirty ''c'' = (Inr 1, snd (get_context st_dirty ''c''))
   \<and> cached (snd (get_context st_dirty ''c'')) ''c'' = Some [turn_a]
   \<and> (\<exists>st'. apply_summary_success st_dirty ''c'' [turn_a] (PyStr ''recap'') = (Inr (), st')
         \<and> cached st' ''c'' =
             Some [[''role'' \<mapsto> PyStr ''system'', ''content'' \<mapsto> PyStr (summary_prefix @ ''recap''),
                    ''uuid'' \<mapsto> PyStr ''u'', ''ts'' \<mapsto> PyStr ''2026-01-01 00:00:00'']])"
proof -
  let ?e = "\<lparr>data = 0, dirty_count = 2, summary_cooldown = 0, last_access = 0\<rparr>"
  have h1: "cache_wf st_dirty" by (simp add: cache_wf_def st_dirty_def st0_def)
  have h2: "clock_ok st_dirty" by (simp add: clock_ok_def st_dirty_def st0_def)
  have m: "map_of (cache st_dirty) ''c'' = Some ?e" by (simp add: st_dirty_def)
  note gh = get_context_hit[OF m]
  have g: "get_context st_dirty ''c'' = (Inr 1, snd (get_context st_dirty ''c''))"
    by (simp add: gh) (simp add: st_dirty_def)
  have cur: "heap (snd (get_context st_dirty ''c'')) 1 = [turn_a]"
    by (simp add: gh) (simp add: st_dirty_def)
  have env: "uuid_src (snd (get_context st_dirty ''c'')) (uuid_used (snd (get_context st_dirty ''c''))) = ''u''"
     "now_str (snd (get_context st_dirty ''c'')) = ''2026-01-01 00:00:00''"
    by (simp_all add: gh) (simp_all add: st_dirty_def st0_def)
  have t: "truthy (dict_get turn_a ''uuid'')" by (simp add: turn_a_def dict_get_def)
  from summary_replaces_prefix[OF h1 h2 _ _ g, of "''recap''" "[turn_a]"]
  have "cached (snd (get_context st_dirty ''c'')) ''c'' = Some [turn_a]
   \<and> (\<exists>st'. apply_summary_success st_dirty ''c'' [turn_a] (PyStr ''recap'') = (Inr (), st')
         \<and> cached st' ''c'' =
             Some [[''role'' \<mapsto> PyStr ''system'', ''content'' \<mapsto> PyStr (summary_prefix @ ''recap''),
                    ''uuid'' \<mapsto> PyStr ''u'', ''ts'' \<mapsto> PyStr ''2026-01-01 00:00:00'']])"
    unfolding cur env using t by simp
  with h1 h2 g show ?thesis by simp
qed

text \<open>
  C10. Let \<open>get_context\<close> return the live transcript \<open>heap st1 r\<close>, and let \<open>u\<close> be the id
  of the user turn: the caller passes a \<open>str(uuid.uuid4())\<close>, which is a non-empty string,
  so \<open>truthy u\<close> holds. Then \<open>_insert_ai_reply\<close> returns normally, and afterwards the cache
  holds: the live transcript unchanged, if some turn has \<open>reply_to = u\<close>; else the live
  transcript with the reply right after the first turn whose id is \<open>u\<close>, if there is
  such a turn; else the live transcript with the reply at its end. (The statement also
  covers the guard \<open>if user_msg_uuid:\<close>: without an id, the reply goes to the end.)
\<close>

theorem insert_reply_once:
  assumes wf: "cache_wf st" and ck: "clock_ok st"
      and g: "get_context st cid = (Inr r, st1)"
  shows "cached st1 cid = Some (heap st1 r)
       \<and> (\<exists>st'. insert_ai_reply st cid u obj = (Inr (), st')
            \<and> cached st' cid = Some
               (if truthy u \<and> (\<exists>m\<in>set (heap st1 r). dict_get m ''reply_to'' = u) then heap st1 r
                else if truthy u \<and> (\<exists>m\<in>set (heap st1 r). dict_get m ''uuid'' = u)
                then take (Suc (length (takeWhile (\<lambda>m. dict_get m ''uuid'' \<noteq> u) (heap st1 r)))) (heap st1 r)
                     @ [obj]
                     @ drop (Suc (length (takeWhile (\<lambda>m. dict_get m ''uuid'' \<noteq> u) (heap st1 r)))) (heap st1 r)
                else heap st1 r @ [obj]))"
proof -
  let ?cur = "heap st1 r"
  let ?dup = "truthy u \<and> (\<exists>m\<in>set ?cur. dict_get m ''reply_to'' = u)"
  from get_context_result[OF wf ck, of cid] obtain r' st1' e1 where
    g': "get_context st cid = (Inr r', st1')" and
    f': "cache_wf st1'" "map_of (cache st1') cid = Some e1" "heap st1' (data e1) = heap st1' r'"
        "r' < next_addr st1'"
    by blast
  have "(Inr r' :: error + addr, st1') = (Inr r, st1)" unfolding g'[symmetric] by (rule g)
  then have eq: "r' = r" "st1' = st1" by (simp_all only: prod.inject sum.inject)
  note wf1 = f'(1)[unfolded eq] and m1 = f'(2)[unfolded eq] and h1 = f'(3)[unfolded eq]
    and rlt = f'(4)[unfolded eq]
  have c1: "cached st1 cid = Some ?cur" using m1 h1 by (simp add: cached_def)
  have "\<exists>st'. insert_ai_reply st cid u obj = (Inr (), st')
            \<and> cached st' cid = Some (if ?dup then ?cur else inserted u obj ?cur)"
  proof (cases ?dup)
    case True
    then have d: "truthy u \<and> has_reply_to u ?cur" by (simp add: has_reply_to_def)
    have "insert_ai_reply st cid u obj = (Inr (), st1)"
      unfolding insert_ai_reply_unfold[OF g] by (rule if_P[OF d])
    with c1 True show ?thesis by auto
  next
    case False
    let ?st2 = "st1\<lparr>heap := (heap st1)(r := inserted u obj ?cur)\<rparr>"
    from False have nd: "\<not> (truthy u \<and> has_reply_to u ?cur)" by (simp add: has_reply_to_def)
    have ap: "insert_ai_reply st cid u obj = update_context ?st2 cid r False"
      unfolding insert_ai_reply_unfold[OF g] by (rule if_not_P[OF nd])
    have wf2: "cache_wf ?st2" using wf1 by (simp add: cache_wf_def)
    have m2: "map_of (cache ?st2) cid = None \<Longrightarrow> clock_ok ?st2" using m1 by simp
    have a2: "r < next_addr ?st2" using rlt by simp
    from update_context_props[OF wf2 m2 a2, where force = False] obtain st' e' where
      u: "update_context ?st2 cid r False = (Inr (), st')" "map_of (cache st') cid = Some e'"
         "heap st' (data e') = heap ?st2 r" by blast
    then have "cached st' cid = Some (inserted u obj ?cur)" by (simp add: cached_def)
    with ap u(1) False show ?thesis by auto
  qed
  then show ?thesis unfolding inserted_spec using c1 by blast
qed

theorem insert_reply_once_witness:
  "cache_wf st_dirty \<and> clock_ok st_dirty
   \<and> get_context st_dirty ''c'' = (Inr 1, snd (get_context st_dirty ''c''))
   \<and> cached (snd (get_context st_dirty ''c'')) ''c'' = Some [turn_a]
   \<and> (\<exists>st'. insert_ai_reply st_dirty ''c'' (PyStr ''a'') reply_a = (Inr (), st')
         \<and> cached st' ''c'' = Some [turn_a, reply_a])"
proof -
  let ?e = "\<lparr>data = 0, dirty_count = 2, summary_cooldown = 0, last_access = 0\<rparr>"
  have h1: "cache_wf st_dirty" by (simp add: cache_wf_def st_dirty_def st0_def)
  have h2: "clock_ok st_dirty" by (simp add: clock_ok_def st_dirty_def st0_def)
  have m: "map_of (cache st_dirty) ''c'' = Some ?e" by (simp add: st_dirty_def)
  note gh = get_context_hit[OF m]
  have g: "get_context st_dirty ''c'' = (Inr 1, snd (get_context st_dirty ''c''))"
    by (simp add: gh) (simp add: st_dirty_def)
  have cur: "heap (snd (get_context st_dirty ''c'')) 1 = [turn_a]"
    by (simp add: gh) (simp add: st_dirty_def)
  have t: "dict_get turn_a ''uuid'' = PyStr ''a''" "dict_get turn_a ''reply_to'' = PyNone"
    by (simp_all add: turn_a_def dict_get_def)
  from insert_reply_once[OF h1 h2 g, of "PyStr ''a''" reply_a]
  have "cached (snd (get_context st_dirty ''c'')) ''c'' = Some [turn_a]
   \<and> (\<exists>st'. insert_ai_reply st_dirty ''c'' (PyStr ''a'') reply_a = (Inr (), st')
         \<and> cached st' ''c'' = Some [turn_a, reply_a])"
    unfolding cur by (simp add: t)
  with h1 h2 g show ?thesis by simp
qed

section \<open>Reply generation\<close>

text \<open>
  C6. For a manager built from a configuration with distinct backend names, for every
  user (whose id fits the 64-bit integer of the store), every store and every payload:
  the chain starts with the user's preferred backend, which is what \<open>resolve_preferred\<close>
  makes of the preference stored for the user and is one of the loaded backends; the
  other loaded backends follow in configuration order, no name twice, each with the
  service configured under its name. Reply generation calls the backends of the chain in
  that order up to and including the first one that returns non-empty text, and returns
  that text with that backend's name. When no backend of the chain returns non-empty
  text, every backend was called and the operation raises the exception whose text is
  the "all routes failed" prefix followed by the lines, joined by \<open>; \<close>, of the backends
  that raised: name, colon, the first 50 characters of the error and three dots. A
  backend that returned empty text has no line.
\<close>

theorem failover_in_order:
  assumes pm: "new_provider_manager lower AI_PROVIDERS = Some pm"
      and dn: "distinct (map fst AI_PROVIDERS)"
      and id: "- (2 ^ 63) \<le> user_id \<and> user_id < 2 ^ 63"
  shows "\<exists>preferred chain d'.
       preferred = resolve_preferred lower (loaded AI_PROVIDERS) (user_model_prefs d user_id)
     \<and> get_user_provider_name lower pm d user_id = (Inr preferred, d')
     \<and> get_service_chain lower pm d user_id = (Inr chain, d')
     \<and> preferred \<in> set (loaded AI_PROVIDERS)
     \<and> map fst chain = preferred # filter (\<lambda>n. n \<noteq> preferred) (loaded AI_PROVIDERS)
     \<and> distinct (map fst chain)
     \<and> (\<forall>b\<in>set chain. (fst b, Some (snd b)) \<in> set AI_PROVIDERS)
     \<and> core_reply_cycle lower pm d user_id payload =
         (case find (answers payload) chain of
            None \<Rightarrow>
              (Inl (Exception (all_failed_prefix @ py_join ''; '' (concat (map (failure_of payload) chain)))),
               map fst chain, d')
          | Some b \<Rightarrow>
              (Inr (reply_of payload b, Some (fst b)),
               map fst (takeWhile (\<lambda>b. \<not> answers payload b) chain) @ [fst b], d'))"
proof -
  from id have id1: "- (2 ^ 63) \<le> user_id" and id2: "user_id < 2 ^ 63" by simp_all
  from get_service_chain_props[OF pm dn id1 id2, of d] show ?thesis
  proof (elim exE conjE)
    fix preferred chain d'
    assume p: "preferred = resolve_preferred lower (loaded AI_PROVIDERS) (user_model_prefs d user_id)"
       "get_user_provider_name lower pm d user_id = (Inr preferred, d')"
       "get_service_chain lower pm d user_id = (Inr chain, d')"
       "preferred \<in> set (loaded AI_PROVIDERS)"
       "map fst chain = preferred # filter (\<lambda>n. n \<noteq> preferred) (loaded AI_PROVIDERS)"
       "distinct (map fst chain)"
       "\<forall>b\<in>set chain. (fst b, Some (snd b)) \<in> set AI_PROVIDERS"
    note c = core_reply_cycle_find[OF p(3), of payload]
    show ?thesis by (intro exI conjI) (rule p c)+
  qed
qed

theorem failover_in_order_witness:
  "new_provider_manager ascii_lower providers_up = Some pm_up \<and> distinct (map fst providers_up)
   \<and> new_provider_manager ascii_lower providers_down = Some pm_down \<and> distinct (map fst providers_down)
   \<and> - (2 ^ 63) \<le> (7 :: int) \<and> (7 :: int) < 2 ^ 63
   \<and> resolve_preferred ascii_lower (loaded providers_up) (user_model_prefs db_pref 7) = ''deepseek''
   \<and> core_reply_cycle ascii_lower pm_up db_pref 7 [] =
       (Inr (PyStr ''hi'', Some ''gemini''), [''deepseek'', ''grok'', ''gemini''],
        db_pref\<lparr>user_model_prefs := [7 \<mapsto> ''deepseek'']\<rparr>)
   \<and> core_reply_cycle ascii_lower pm_down db_pref 7 [] =
       (Inl (Exception (all_failed_prefix
          @ ''deepseek: Request timed out after 600 seconds of waiting: ''
          @ [CHR 0xC3, CHR 0xA9, CHR 0xC3, CHR 0xA9]
          @ ''...; grok: Connection error....; gemini: Connection error....'')),
        [''deepseek'', ''grok'', ''gemini''],
        db_pref\<lparr>user_model_prefs := [7 \<mapsto> ''deepseek'']\<rparr>)"
proof -
  have lw: "ascii_lower ''grok'' = ''grok''" "ascii_lower ''deepseek'' = ''deepseek''"
    "ascii_lower ''gemini'' = ''gemini''" "ascii_lower ''DeepSeek'' = ''deepseek''"
    by (simp_all add: ascii_lower_def)
  have ch: "chars ''DeepSeek'' = [''D'', ''e'', ''e'', ''p'', ''S'', ''e'', ''e'', ''k'']"
    "chars ''deepseek'' = [''d'', ''e'', ''e'', ''p'', ''s'', ''e'', ''e'', ''k'']"
    by (simp_all add: is_cont_def)
  have sp: "py_strip ''DeepSeek'' = ''DeepSeek''" "py_strip ''deepseek'' = ''deepseek''"
    unfolding py_strip_def ch by (simp_all add: whitespace_def)
  have h1: "new_provider_manager ascii_lower providers_up = Some pm_up"
    by (simp add: new_provider_manager_def providers_up_def pm_up_def lw)
  have h2: "distinct (map fst providers_up)" by (simp add: providers_up_def)
  have h3: "new_provider_manager ascii_lower providers_down = Some pm_down"
    by (simp add: new_provider_manager_def providers_down_def pm_down_def lw)
  have h4: "distinct (map fst providers_down)" by (simp add: providers_down_def)
  have h5: "- (2 ^ 63) \<le> (7 :: int) \<and> (7 :: int) < 2 ^ 63" by simp
  have ld: "loaded providers_up = [''grok'', ''deepseek'', ''gemini'']"
    "loaded providers_down = [''grok'', ''deepseek'', ''gemini'']"
    by (simp_all add: loaded_def providers_up_def providers_down_def)
  have up: "user_model_prefs db_pref 7 = Some ''DeepSeek''" by (simp add: db_pref_def)
  have rp: "resolve_preferred ascii_lower [''grok'', ''deepseek'', ''gemini''] (Some ''DeepSeek'') = ''deepseek''"
    by (simp add: resolve_preferred_def sp lw)
  have su: "snd (set_user_model db_pref 7 ''deepseek'') = db_pref\<lparr>user_model_prefs := [7 \<mapsto> ''deepseek'']\<rparr>"
    by (simp add: set_user_model_def sp db_pref_def empty_db_def)
  have gm: "get_user_model db_pref 7 = Inr (Some ''DeepSeek'')"
    by (simp add: get_user_model_def up sp)
  have g1: "get_user_provider_name ascii_lower pm_up db_pref 7
              = (Inr ''deepseek'', db_pref\<lparr>user_model_prefs := [7 \<mapsto> ''deepseek'']\<rparr>)"
    by (simp add: get_user_provider_name_def gm sp lw su pm_up_def)
  have g2: "get_user_provider_name ascii_lower pm_down db_pref 7
              = (Inr ''deepseek'', db_pref\<lparr>user_model_prefs := [7 \<mapsto> ''deepseek'']\<rparr>)"
    by (simp add: get_user_provider_name_def gm sp lw su pm_down_def)
  have c1: "get_service_chain ascii_lower pm_up db_pref 7 =
              (Inr [(''deepseek'', svc_slow), (''grok'', svc_down), (''gemini'', svc_up)],
               db_pref\<lparr>user_model_prefs := [7 \<mapsto> ''deepseek'']\<rparr>)"
    by (simp add: get_service_chain_def g1) (simp add: pm_up_def)
  have c2: "get_service_chain ascii_lower pm_down db_pref 7 =
              (Inr [(''deepseek'', svc_slow), (''grok'', svc_down), (''gemini'', svc_down)],
               db_pref\<lparr>user_model_prefs := [7 \<mapsto> ''deepseek'']\<rparr>)"
    by (simp add: get_service_chain_def g2) (simp add: pm_down_def)
  have a: "\<not> answers [] (n, svc_slow)" "\<not> answers [] (n, svc_down)" "answers [] (n, svc_up)"
          "reply_of [] (n, svc_up) = PyStr ''hi''" for n
    by (simp_all add: answers_def reply_of_def svc_slow_def svc_down_def svc_up_def)
  have sl: "str_slice_to 50 (''Request timed out after 600 seconds of waiting: ''
                               @ [CHR 0xC3, CHR 0xA9, CHR 0xC3, CHR 0xA9, CHR 0xC3, CHR 0xA9])
              = ''Request timed out after 600 seconds of waiting: '' @ [CHR 0xC3, CHR 0xA9, CHR 0xC3, CHR 0xA9]"
    "str_slice_to 50 ''Connection error.'' = ''Connection error.''"
    by (simp_all add: str_slice_to_def slice_to_def is_cont_def)
  have f: "failure_of [] (''deepseek'', svc_slow)
             = [''deepseek: Request timed out after 600 seconds of waiting: ''
                @ [CHR 0xC3, CHR 0xA9, CHR 0xC3, CHR 0xA9] @ ''...'']"
          "failure_of [] (''grok'', svc_down) = [''grok: Connection error....'']"
          "failure_of [] (''gemini'', svc_down) = [''gemini: Connection error....'']"
    by (simp_all add: failure_of_def svc_slow_def svc_down_def str_slice_to_truncated[of 50, simplified, symmetric]
          sl[simplified])
  from failover_in_order[OF h1 h2 h5, of db_pref "[]"]
  have r1: "core_reply_cycle ascii_lower pm_up db_pref 7 [] =
       (Inr (PyStr ''hi'', Some ''gemini''), [''deepseek'', ''grok'', ''gemini''],
        db_pref\<lparr>user_model_prefs := [7 \<mapsto> ''deepseek'']\<rparr>)"
    unfolding g1 c1 by (auto simp: a)
  from failover_in_order[OF h3 h4 h5, of db_pref "[]"]
  have r2: "core_reply_cycle ascii_lower pm_down db_pref 7 [] =
       (Inl (Exception (all_failed_prefix
          @ ''deepseek: Request timed out after 600 seconds of waiting: ''
          @ [CHR 0xC3, CHR 0xA9, CHR 0xC3, CHR 0xA9]
          @ ''...; grok: Connection error....; gemini: Connection error....'')),
        [''deepseek'', ''grok'', ''gemini''],
        db_pref\<lparr>user_model_prefs := [7 \<mapsto> ''deepseek'']\<rparr>)"
    unfolding g2 c2 by (auto simp: a f)
  from h1 h2 h3 h4 h5 r1 r2 rp show ?thesis unfolding ld up by simp
qed

end
